theory Spec2Isabelle
  imports Complex_Main "HOL-Library.Sublist"
begin

section \<open>Strings\<close>

text \<open>
  Texts are HOL strings. A character is read as the code unit with the same number
  (0 to 255, Latin-1); code units above 255 are outside the character type, so the rupee
  and euro signs of the currency pattern have no counterpart here.
\<close>

definition code :: "char \<Rightarrow> nat" where
  "code c = of_char c"

definition isDigit :: "char \<Rightarrow> bool" where
  "isDigit c = (48 \<le> code c \<and> code c \<le> 57)"

definition isLower :: "char \<Rightarrow> bool" where
  "isLower c = (97 \<le> code c \<and> code c \<le> 122)"

definition isUpper :: "char \<Rightarrow> bool" where
  "isUpper c = (65 \<le> code c \<and> code c \<le> 90)"

definition isAlpha :: "char \<Rightarrow> bool" where
  "isAlpha c = (isLower c \<or> isUpper c)"

definition isAlnum :: "char \<Rightarrow> bool" where
  "isAlnum c = (isAlpha c \<or> isDigit c)"

text \<open>The class \<open>\w\<close>: ASCII letters, digits and the underscore.\<close>

definition isWordChar :: "char \<Rightarrow> bool" where
  "isWordChar c = (isAlnum c \<or> c = CHR ''_'')"

text \<open>
  The class \<open>\s\<close>, which is also what \<open>String.prototype.trim\<close> strips: tab, line feed,
  vertical tab, form feed, carriage return, space and the no-break space.
\<close>

definition isSpace :: "char \<Rightarrow> bool" where
  "isSpace c = (code c \<in> {9, 10, 11, 12, 13, 32, 160})"

text \<open>
  \<open>toLowerCase\<close> on one code unit: A-Z, and the Latin-1 capitals 192-222 except 215, move
  up by 32. In these ranges the bit of value 32 is clear, so adding 32 sets it.
\<close>

fun plus32 :: "char \<Rightarrow> char" where
  "plus32 (Char b0 b1 b2 b3 b4 b5 b6 b7) = Char b0 b1 b2 b3 b4 True b6 b7"

definition lowerChar :: "char \<Rightarrow> char" where
  "lowerChar c =
     (if isUpper c \<or> (192 \<le> code c \<and> code c \<le> 222 \<and> code c \<noteq> 215)
      then plus32 c else c)"

definition toLowerCase :: "string \<Rightarrow> string" where
  "toLowerCase s = map lowerChar s"

definition trim :: "string \<Rightarrow> string" where
  "trim s = rev (dropWhile isSpace (rev (dropWhile isSpace s)))"

text \<open>\<open>s.replace(/\s+/g, " ")\<close>: every maximal run of whitespace becomes one space.\<close>

function collapseSpaces :: "string \<Rightarrow> string" where
  "collapseSpaces [] = []"
| "collapseSpaces (c # cs) =
     (if isSpace c then CHR '' '' # collapseSpaces (dropWhile isSpace cs)
      else c # collapseSpaces cs)"
  by pat_completeness auto
termination
  by (relation "measure length") (auto simp: length_dropWhile_le less_Suc_eq_le)

text \<open>\<open>s.startsWith(t)\<close>, \<open>s.endsWith(t)\<close> and \<open>s.includes(t)\<close>.\<close>

fun startsWith :: "string \<Rightarrow> string \<Rightarrow> bool" where
  "startsWith s [] = True"
| "startsWith [] (t # ts) = False"
| "startsWith (c # cs) (t # ts) = (c = t \<and> startsWith cs ts)"

definition endsWith :: "string \<Rightarrow> string \<Rightarrow> bool" where
  "endsWith s t = startsWith (rev s) (rev t)"

fun includesStr :: "string \<Rightarrow> string \<Rightarrow> bool" where
  "includesStr [] t = (t = [])"
| "includesStr (c # cs) t = (startsWith (c # cs) t \<or> includesStr cs t)"

text \<open>\<open>s.split(sep)\<close> for a one-character separator; the empty string gives one empty piece.\<close>

fun splitOn :: "char \<Rightarrow> string \<Rightarrow> string list" where
  "splitOn sep [] = [[]]"
| "splitOn sep (c # cs) =
     (if c = sep then [] # splitOn sep cs
      else (case splitOn sep cs of
              [] \<Rightarrow> [[c]]
            | p # ps \<Rightarrow> (c # p) # ps))"

text \<open>\<open>s.split(/\s+/)\<close>: pieces between maximal whitespace runs, empty pieces kept at the ends.\<close>

function splitSpaces :: "string \<Rightarrow> string list" where
  "splitSpaces [] = [[]]"
| "splitSpaces (c # cs) =
     (if isSpace c then [] # splitSpaces (dropWhile isSpace cs)
      else (case splitSpaces cs of
              [] \<Rightarrow> [[c]]
            | p # ps \<Rightarrow> (c # p) # ps))"
  by pat_completeness auto
termination
  by (relation "measure length") (auto simp: length_dropWhile_le less_Suc_eq_le)

text \<open>\<open>xs.join(sep)\<close>.\<close>

fun joinWith :: "string \<Rightarrow> string list \<Rightarrow> string" where
  "joinWith sep [] = []"
| "joinWith sep [x] = x"
| "joinWith sep (x # y # ys) = x @ sep @ joinWith sep (y # ys)"

text \<open>Decimal rendering of a non-negative integer, as a template literal prints it.\<close>

definition digitChar :: "nat \<Rightarrow> char" where
  "digitChar d = char_of (48 + d)"

fun showNat :: "nat \<Rightarrow> string" where
  "showNat n = (if n < 10 then [digitChar n] else showNat (n div 10) @ [digitChar (n mod 10)])"

declare showNat.simps [simp del]

section \<open>Numbers read from the environment\<close>

text \<open>
  \<open>Number(process.env.X ?? default)\<close>: the variable is unset (\<open>None\<close>) or holds a text
  that \<open>Number\<close> reads as a finite number or as NaN or an infinity.
\<close>

datatype jsnum = Finite real | NotFinite

definition numberOr :: "real \<Rightarrow> jsnum option \<Rightarrow> jsnum" where
  "numberOr dflt v = (case v of None \<Rightarrow> Finite dflt | Some x \<Rightarrow> x)"

section \<open>Event bus\<close>

datatype DashboardEventType =
    query_received | privacy_processed | risk_blocked | consent_required
  | consent_decision | ingest_success | ingest_error | archestra_request
  | archestra_response | memory_saved

datatype pvalue = PStr string | PNum nat | PBool bool | PUndefined

type_synonym payload = "(string \<times> pvalue) list"

record DashboardEvent =
  ev_id :: string
  ev_type :: DashboardEventType
  ev_timestamp :: string
  ev_payload :: payload

definition getBufferLimit :: "jsnum option \<Rightarrow> nat" where
  "getBufferLimit MAX_EVENT_BUFFER =
     (case numberOr 200 MAX_EVENT_BUFFER of
        Finite x \<Rightarrow> (if x > 0 then nat \<lfloor>x\<rfloor> else 200)
      | NotFinite \<Rightarrow> 200)"

text \<open>
  \<open>publishEvent\<close> on the stored event list. The fresh id and the timestamp are inputs. The
  handlers are called after the list is updated and their exceptions are dropped; they are
  not part of the stored list.
\<close>

definition publishEvent ::
  "jsnum option \<Rightarrow> string \<Rightarrow> string \<Rightarrow> DashboardEventType \<Rightarrow> payload \<Rightarrow>
   DashboardEvent list \<Rightarrow> DashboardEvent list \<times> DashboardEvent" where
  "publishEvent cfg uuid now ty pl events =
     (let event = \<lparr>ev_id = uuid, ev_type = ty, ev_timestamp = now, ev_payload = pl\<rparr>;
          pushed = events @ [event];
          limit = getBufferLimit cfg
      in (if length pushed > limit then drop (length pushed - limit) pushed else pushed,
          event))"

section \<open>Consent gate\<close>

definition DEFAULT_CONSENT_TTL_MS :: int where
  "DEFAULT_CONSENT_TTL_MS = 5 * 60 * 1000"

type_synonym consents = "string \<rightharpoonup> int"

definition normalizeTopic :: "string \<Rightarrow> string" where
  "normalizeTopic topic = toLowerCase (trim topic)"

definition getConsentTtlMs :: "jsnum option \<Rightarrow> int" where
  "getConsentTtlMs CONSENT_TTL_MS =
     (case numberOr (real_of_int DEFAULT_CONSENT_TTL_MS) CONSENT_TTL_MS of
        Finite x \<Rightarrow> (if x > 0 then \<lfloor>x\<rfloor> else DEFAULT_CONSENT_TTL_MS)
      | NotFinite \<Rightarrow> DEFAULT_CONSENT_TTL_MS)"

text \<open>\<open>now\<close> is the value of \<open>Date.now()\<close> at the call, in milliseconds.\<close>

definition grantConsent :: "jsnum option \<Rightarrow> int \<Rightarrow> string \<Rightarrow> consents \<Rightarrow> consents" where
  "grantConsent cfg now topic m =
     (let normalized = normalizeTopic topic
      in if normalized = [] then m
         else m(normalized \<mapsto> now + getConsentTtlMs cfg))"

definition denyConsent :: "string \<Rightarrow> consents \<Rightarrow> consents" where
  "denyConsent topic m =
     (let normalized = normalizeTopic topic
      in if normalized = [] then m else m(normalized := None))"

text \<open>
  \<open>consumeConsent\<close> returns the updated map and the answer. \<open>!expiry\<close> is true for a missing
  entry and for the number 0.
\<close>

definition consumeConsent :: "int \<Rightarrow> string \<Rightarrow> consents \<Rightarrow> consents \<times> bool" where
  "consumeConsent now topic m =
     (let normalized = normalizeTopic topic
      in if normalized = [] then (m, False)
         else (case m normalized of
                 None \<Rightarrow> (m, False)
               | Some expiry \<Rightarrow>
                   if expiry = 0 then (m, False)
                   else if expiry < now then (m(normalized := None), False)
                   else (m(normalized := None), True)))"

text \<open>
  A history of calls on the gate, to count how often a topic was granted and how often a
  consume of it answered true.
\<close>

datatype gateOp = Grant int string | Deny string | Consume int string

fun gateStep :: "jsnum option \<Rightarrow> gateOp \<Rightarrow> consents \<Rightarrow> consents \<times> bool" where
  "gateStep cfg (Grant now topic) m = (grantConsent cfg now topic m, False)"
| "gateStep cfg (Deny topic) m = (denyConsent topic m, False)"
| "gateStep cfg (Consume now topic) m = consumeConsent now topic m"

fun opTopic :: "gateOp \<Rightarrow> string" where
  "opTopic (Grant now topic) = normalizeTopic topic"
| "opTopic (Deny topic) = normalizeTopic topic"
| "opTopic (Consume now topic) = normalizeTopic topic"

fun isGrant :: "gateOp \<Rightarrow> bool" where
  "isGrant (Grant now topic) = True"
| "isGrant (Deny topic) = False"
| "isGrant (Consume now topic) = False"

fun consumed :: "jsnum option \<Rightarrow> string \<Rightarrow> gateOp list \<Rightarrow> consents \<Rightarrow> nat" where
  "consumed cfg k [] m = 0"
| "consumed cfg k (x # xs) m =
     (case gateStep cfg x m of
        (m', ok) \<Rightarrow> (if ok \<and> opTopic x = k then 1 else 0) + consumed cfg k xs m')"

definition granted :: "string \<Rightarrow> gateOp list \<Rightarrow> nat" where
  "granted k ops = length (filter (\<lambda>x. isGrant x \<and> opTopic x = k) ops)"

definition slot :: "consents \<Rightarrow> string \<Rightarrow> nat" where
  "slot m k = (if m k = None \<or> m k = Some 0 then 0 else 1)"

section \<open>Regular expressions\<close>

text \<open>
  The patterns of the source are JavaScript regular expressions. A pattern is matched by
  backtracking: \<open>rmatch r st\<close> lists, in the order in which the backtracking matcher tries
  them, the states in which a match of \<open>r\<close> started in \<open>st\<close> can end. The first state of the
  list for the whole pattern is the match that is found. A state holds the character before
  the current position (for \<open>\b\<close> and the lookbehind), the text from the current position
  on, and the texts of the capture groups closed so far, the latest first.
\<close>

datatype regex =
    Eps
  | Sym "char \<Rightarrow> bool"
  | Seq regex regex
  | Alt regex regex
  | Star regex
  | Lazy regex
  | Group nat regex
  | WordB
  | NotAfterWord

type_synonym mstate = "char option \<times> string \<times> (nat \<times> string) list"

definition wordBefore :: "char option \<Rightarrow> bool" where
  "wordBefore pv = (case pv of None \<Rightarrow> False | Some c \<Rightarrow> isWordChar c)"

definition wordAhead :: "string \<Rightarrow> bool" where
  "wordAhead rest = (case rest of [] \<Rightarrow> False | c # cs \<Rightarrow> isWordChar c)"

definition shorter :: "string \<Rightarrow> mstate \<Rightarrow> bool" where
  "shorter rest st = (length (fst (snd st)) < length rest)"

text \<open>
  \<open>Star\<close> is the greedy \<open>r*\<close> and \<open>Lazy\<close> the lazy \<open>r*?\<close>; an iteration that consumes
  nothing is not repeated. \<open>WordB\<close> is \<open>\b\<close> and \<open>NotAfterWord\<close> is \<open>(?<!\w)\<close>.
\<close>

function rmatch :: "regex \<Rightarrow> mstate \<Rightarrow> mstate list" where
  "rmatch Eps st = [st]"
| "rmatch (Sym p) (pv, rest, caps) =
     (case rest of
        [] \<Rightarrow> []
      | c # cs \<Rightarrow> if p c then [(Some c, cs, caps)] else [])"
| "rmatch (Seq a b) st = concat (map (rmatch b) (rmatch a st))"
| "rmatch (Alt a b) st = rmatch a st @ rmatch b st"
| "rmatch (Star a) (pv, rest, caps) =
     concat (map (rmatch (Star a)) (filter (shorter rest) (rmatch a (pv, rest, caps))))
       @ [(pv, rest, caps)]"
| "rmatch (Lazy a) (pv, rest, caps) =
     (pv, rest, caps)
       # concat (map (rmatch (Lazy a)) (filter (shorter rest) (rmatch a (pv, rest, caps))))"
| "rmatch (Group n a) (pv, rest, caps) =
     map (\<lambda>(pv', rest', caps').
            (pv', rest', (n, take (length rest - length rest') rest) # caps'))
       (rmatch a (pv, rest, caps))"
| "rmatch WordB (pv, rest, caps) =
     (if wordBefore pv \<noteq> wordAhead rest then [(pv, rest, caps)] else [])"
| "rmatch NotAfterWord (pv, rest, caps) =
     (if wordBefore pv then [] else [(pv, rest, caps)])"
  by pat_completeness auto
termination
  by (relation "measures [\<lambda>(r, st). size r, \<lambda>(r, st). length (fst (snd st))]")
     (auto simp: shorter_def)

declare rmatch.simps [simp del]

text \<open>Pattern syntax: one character, with and without the \<open>i\<close> flag, and literal words.\<close>

definition chr :: "char \<Rightarrow> regex" where
  "chr x = Sym (\<lambda>c. c = x)"

definition chri :: "char \<Rightarrow> regex" where
  "chri x = Sym (\<lambda>c. lowerChar c = lowerChar x)"

fun seqs :: "regex list \<Rightarrow> regex" where
  "seqs [] = Eps"
| "seqs [r] = r"
| "seqs (r # rs) = Seq r (seqs rs)"

fun alts :: "regex list \<Rightarrow> regex" where
  "alts [] = Eps"
| "alts [r] = r"
| "alts (r # rs) = Alt r (alts rs)"

definition lit :: "string \<Rightarrow> regex" where
  "lit s = seqs (map chr s)"

definition liti :: "string \<Rightarrow> regex" where
  "liti s = seqs (map chri s)"

text \<open>Quantifiers: \<open>r?\<close>, \<open>r+\<close>, \<open>r{n}\<close>, \<open>r{0,n}\<close>, \<open>r{n,m}\<close> and \<open>r{n,}\<close>, all greedy.\<close>

definition Opt :: "regex \<Rightarrow> regex" where
  "Opt r = Alt r Eps"

definition Plus :: "regex \<Rightarrow> regex" where
  "Plus r = Seq r (Star r)"

fun exactly :: "nat \<Rightarrow> regex \<Rightarrow> regex" where
  "exactly 0 r = Eps"
| "exactly (Suc n) r = Seq r (exactly n r)"

fun upTo :: "nat \<Rightarrow> regex \<Rightarrow> regex" where
  "upTo 0 r = Eps"
| "upTo (Suc n) r = Alt (Seq r (upTo n r)) Eps"

definition between :: "nat \<Rightarrow> nat \<Rightarrow> regex \<Rightarrow> regex" where
  "between n m r = Seq (exactly n r) (upTo (m - n) r)"

definition orMore :: "nat \<Rightarrow> regex \<Rightarrow> regex" where
  "orMore n r = Seq (exactly n r) (Star r)"

text \<open>The match found at one position, if any.\<close>

definition matchAt :: "regex \<Rightarrow> char option \<Rightarrow> string \<Rightarrow> mstate option" where
  "matchAt r pv rest = (case rmatch r (pv, rest, []) of [] \<Rightarrow> None | st # sts \<Rightarrow> Some st)"

text \<open>\<open>r.test(s)\<close> for a pattern without the \<open>g\<close> flag: is there a match at some position.\<close>

fun testFrom :: "regex \<Rightarrow> char option \<Rightarrow> string \<Rightarrow> bool" where
  "testFrom r pv [] = (matchAt r pv [] \<noteq> None)"
| "testFrom r pv (c # cs) = (matchAt r pv (c # cs) \<noteq> None \<or> testFrom r (Some c) cs)"

definition regexTest :: "regex \<Rightarrow> string \<Rightarrow> bool" where
  "regexTest r s = testFrom r None s"

text \<open>
  The capture array handed to a replacement callback: one text per group, the empty text
  for a group that took no part in the match.
\<close>

fun groupCount :: "regex \<Rightarrow> nat" where
  "groupCount Eps = 0"
| "groupCount (Sym p) = 0"
| "groupCount (Seq a b) = max (groupCount a) (groupCount b)"
| "groupCount (Alt a b) = max (groupCount a) (groupCount b)"
| "groupCount (Star a) = groupCount a"
| "groupCount (Lazy a) = groupCount a"
| "groupCount (Group n a) = max n (groupCount a)"
| "groupCount WordB = 0"
| "groupCount NotAfterWord = 0"

definition captureArray :: "regex \<Rightarrow> (nat \<times> string) list \<Rightarrow> string list" where
  "captureArray r caps =
     map (\<lambda>i. case map_of caps i of None \<Rightarrow> [] | Some v \<Rightarrow> v) [1 ..< Suc (groupCount r)]"

text \<open>
  \<open>s.replace(r, callback)\<close> for a pattern with the \<open>g\<close> flag. The scan goes left to right
  over the original text; after a match it goes on behind the match (one character further
  after an empty match). The result is the new text and the list of the callback's
  arguments (match, captures) in call order.
\<close>

function replaceFrom ::
  "regex \<Rightarrow> (string \<Rightarrow> string list \<Rightarrow> string) \<Rightarrow> char option \<Rightarrow> string \<Rightarrow>
   string \<times> (string \<times> string list) list" where
  "replaceFrom r f pv rest =
     (case matchAt r pv rest of
        None \<Rightarrow>
          (case rest of
             [] \<Rightarrow> ([], [])
           | c # cs \<Rightarrow>
               (case replaceFrom r f (Some c) cs of (out, calls) \<Rightarrow> (c # out, calls)))
      | Some (pv', rest', caps) \<Rightarrow>
          (let m = take (length rest - length rest') rest;
               captures = captureArray r caps
           in if length rest' < length rest
              then (case replaceFrom r f pv' rest' of
                      (out, calls) \<Rightarrow> (f m captures @ out, (m, captures) # calls))
              else (case rest of
                      [] \<Rightarrow> (f m captures, [(m, captures)])
                    | c # cs \<Rightarrow>
                        (case replaceFrom r f (Some c) cs of
                           (out, calls) \<Rightarrow> (f m captures @ c # out, (m, captures) # calls)))))"
  by pat_completeness auto
termination
  by (relation "measure (\<lambda>(r, f, pv, rest). length rest)") auto

declare replaceFrom.simps [simp del]

definition replaceAll ::
  "regex \<Rightarrow> (string \<Rightarrow> string list \<Rightarrow> string) \<Rightarrow> string \<Rightarrow>
   string \<times> (string \<times> string list) list" where
  "replaceAll r f s = replaceFrom r f None s"

section \<open>Privacy redaction pipeline\<close>

datatype Level = LOW | HIGH

type_synonym RiskLevel = Level

type_synonym RedactionConfidence = Level

datatype Severity = low | medium | high

datatype Replacement = Fixed string | Computed "string \<Rightarrow> string list \<Rightarrow> string"

record Pattern =
  name :: string
  regex :: regex
  severity :: Severity
  captureIndex :: "nat option"
  replacement :: Replacement

definition resolveSecretToken :: "string \<Rightarrow> string" where
  "resolveSecretToken secretLabel =
     (let label = trim (toLowerCase secretLabel)
      in if includesStr label ''password'' \<or> label = ''pwd'' then ''[REDACTED_PASSWORD]''
         else if includesStr label ''aws'' then ''[REDACTED_AWS_ACCESS_KEY]''
         else if includesStr label ''secret'' then ''[REDACTED_SECRET]''
         else ''[REDACTED_API_KEY]'')"

text \<open>\<open>xs[i] ?? d\<close>.\<close>

definition nthOr :: "'a \<Rightarrow> 'a list \<Rightarrow> nat \<Rightarrow> 'a" where
  "nthOr d xs i = (if i < length xs then xs ! i else d)"

text \<open>Character classes of the patterns.\<close>

definition digit :: regex where
  "digit = Sym isDigit"

definition alnum :: regex where
  "alnum = Sym isAlnum"

text \<open>\<open>[-.\s]\<close>\<close>

definition phoneSep :: regex where
  "phoneSep = Sym (\<lambda>c. c = CHR ''-'' \<or> c = CHR ''.'' \<or> isSpace c)"

text \<open>\<open>[a-zA-Z0-9_-]\<close>\<close>

definition tokenChar :: regex where
  "tokenChar = Sym (\<lambda>c. isAlnum c \<or> c = CHR ''_'' \<or> c = CHR ''-'')"

text \<open>\<open>[_\s-]\<close>\<close>

definition labelGap :: regex where
  "labelGap = Sym (\<lambda>c. c = CHR ''_'' \<or> isSpace c \<or> c = CHR ''-'')"

text \<open>\<open>\s*[:=]\s*\<close>\<close>

definition assignSep :: regex where
  "assignSep = seqs [Star (Sym isSpace), Sym (\<lambda>c. c = CHR '':'' \<or> c = CHR ''=''), Star (Sym isSpace)]"

text \<open>\<open>['"]?\<close>\<close>

definition quoteOpt :: regex where
  "quoteOpt = Opt (Sym (\<lambda>c. c = CHR 0x27 \<or> c = CHR 0x22))"

text \<open>\<open>/[a-zA-Z0-9._%+-]+@[a-zA-Z0-9.-]+\.[a-zA-Z]{2,}/gi\<close>\<close>

definition email_regex :: regex where
  "email_regex =
     seqs [Plus (Sym (\<lambda>c. isAlnum c \<or> c \<in> set ''._%+-'')),
           chr CHR ''@'',
           Plus (Sym (\<lambda>c. isAlnum c \<or> c \<in> set ''.-'')),
           chr CHR ''.'',
           orMore 2 (Sym isAlpha)]"

text \<open>\<open>/\b(?:\+?\d{1,3}[-.\s]?)?(?:\(?\d{3}\)?[-.\s]?\d{3}[-.\s]?\d{4}|\d{10})\b/g\<close>\<close>

definition phone_regex :: regex where
  "phone_regex =
     seqs [WordB,
           Opt (seqs [Opt (chr CHR ''+''), between 1 3 digit, Opt phoneSep]),
           Alt (seqs [Opt (chr CHR ''(''), exactly 3 digit, Opt (chr CHR '')''), Opt phoneSep,
                      exactly 3 digit, Opt phoneSep, exactly 4 digit])
               (exactly 10 digit),
           WordB]"

text \<open>\<open>/\b\d{3}-\d{2}-\d{4}\b/g\<close>\<close>

definition ssn_regex :: regex where
  "ssn_regex =
     seqs [WordB, exactly 3 digit, chr CHR ''-'', exactly 2 digit, chr CHR ''-'',
           exactly 4 digit, WordB]"

text \<open>\<open>/\b(?:\d[ -]*?){13,16}\b/g\<close>\<close>

definition credit_card_regex :: regex where
  "credit_card_regex =
     seqs [WordB,
           between 13 16 (Seq digit (Lazy (Sym (\<lambda>c. c = CHR '' '' \<or> c = CHR ''-'')))),
           WordB]"

text \<open>
  \<open>/(?<!\w)(?:\$|R|E|P)\s?\d+(?:,\d{3})*(?:\.\d+)?(?:[kKmMbB])?\b/g\<close>, where R, E and P
  stand for the rupee, euro and pound signs of the source. Of the four currency signs, the
  dollar and the pound sign (code 163) are characters here.
\<close>

definition financial_amount_regex :: regex where
  "financial_amount_regex =
     seqs [NotAfterWord,
           Alt (chr CHR ''$'') (chr (CHR 0xA3)),
           Opt (Sym isSpace),
           Plus digit,
           Star (seqs [chr CHR '','', exactly 3 digit]),
           Opt (seqs [chr CHR ''.'', Plus digit]),
           Opt (Sym (\<lambda>c. c \<in> set ''kKmMbB'')),
           WordB]"

text \<open>\<open>/\b(?:sk|pk)_(?:live|test)_[a-zA-Z0-9]{16,}\b|\bsk-[a-zA-Z0-9]{20,}\b/g\<close>\<close>

definition openai_or_stripe_key_regex :: regex where
  "openai_or_stripe_key_regex =
     Alt (seqs [WordB, Alt (lit ''sk'') (lit ''pk''), chr CHR ''_'',
                Alt (lit ''live'') (lit ''test''), chr CHR ''_'', orMore 16 alnum, WordB])
         (seqs [WordB, lit ''sk-'', orMore 20 alnum, WordB])"

text \<open>\<open>/\bAKIA[0-9A-Z]{16}\b/g\<close>\<close>

definition aws_access_key_regex :: regex where
  "aws_access_key_regex =
     seqs [WordB, lit ''AKIA'', exactly 16 (Sym (\<lambda>c. isDigit c \<or> isUpper c)), WordB]"

text \<open>\<open>/\beyJ[a-zA-Z0-9_-]+\.[a-zA-Z0-9_-]+\.[a-zA-Z0-9_-]+\b/g\<close>\<close>

definition jwt_regex :: regex where
  "jwt_regex =
     seqs [WordB, lit ''eyJ'', Plus tokenChar, chr CHR ''.'', Plus tokenChar, chr CHR ''.'',
           Plus tokenChar, WordB]"

text \<open>
  \<open>/\b(api[_\s-]*key|token|secret|password|pwd|access[_\s-]*key)\b(\s*[:=]\s*)([a-zA-Z0-9_\-]{8,})\b/gi\<close>
\<close>

definition generic_secret_assignment_regex :: regex where
  "generic_secret_assignment_regex =
     seqs [WordB,
           Group 1 (alts [seqs [liti ''api'', Star labelGap, liti ''key''],
                          liti ''token'', liti ''secret'', liti ''password'', liti ''pwd'',
                          seqs [liti ''access'', Star labelGap, liti ''key'']]),
           WordB,
           Group 2 assignSep,
           Group 3 (orMore 8 tokenChar),
           WordB]"

text \<open>\<open>/\b(account|acct)\b(\s*[:=]\s*)(\d{6,})\b/gi\<close>\<close>

definition bank_account_regex :: regex where
  "bank_account_regex =
     seqs [WordB,
           Group 1 (Alt (liti ''account'') (liti ''acct'')),
           WordB,
           Group 2 assignSep,
           Group 3 (orMore 6 digit),
           WordB]"

text \<open>\<open>/\b(project\s*code)\b(\s*[:=]\s*['"]?)([A-Z]-\d{3,})(['"]?)/gi\<close>\<close>

definition project_code_regex :: regex where
  "project_code_regex =
     seqs [WordB,
           Group 1 (seqs [liti ''project'', Star (Sym isSpace), liti ''code'']),
           WordB,
           Group 2 (seqs [assignSep, quoteOpt]),
           Group 3 (seqs [Sym isAlpha, chr CHR ''-'', orMore 3 digit]),
           Group 4 quoteOpt]"

definition PATTERNS :: "Pattern list" where
  "PATTERNS =
     [\<lparr>name = ''email'', regex = email_regex, severity = medium, captureIndex = None,
       replacement = Fixed ''[REDACTED_EMAIL]''\<rparr>,
      \<lparr>name = ''phone'', regex = phone_regex, severity = medium, captureIndex = None,
       replacement = Fixed ''[REDACTED_PHONE]''\<rparr>,
      \<lparr>name = ''ssn'', regex = ssn_regex, severity = high, captureIndex = None,
       replacement = Fixed ''[REDACTED_SSN]''\<rparr>,
      \<lparr>name = ''credit_card'', regex = credit_card_regex, severity = high,
       captureIndex = None, replacement = Fixed ''[REDACTED_CREDIT_CARD]''\<rparr>,
      \<lparr>name = ''financial_amount'', regex = financial_amount_regex, severity = medium,
       captureIndex = None, replacement = Fixed ''[REDACTED_FINANCIAL_AMOUNT]''\<rparr>,
      \<lparr>name = ''openai_or_stripe_key'', regex = openai_or_stripe_key_regex, severity = high,
       captureIndex = None, replacement = Fixed ''[REDACTED_API_KEY]''\<rparr>,
      \<lparr>name = ''aws_access_key'', regex = aws_access_key_regex, severity = high,
       captureIndex = None, replacement = Fixed ''[REDACTED_AWS_ACCESS_KEY]''\<rparr>,
      \<lparr>name = ''jwt'', regex = jwt_regex, severity = high, captureIndex = None,
       replacement = Fixed ''[REDACTED_JWT]''\<rparr>,
      \<lparr>name = ''generic_secret_assignment'', regex = generic_secret_assignment_regex,
       severity = high, captureIndex = Some 3,
       replacement = Computed (\<lambda>match captures.
         let label = nthOr ''secret'' captures 0;
             separator = nthOr '': '' captures 1
         in label @ separator @ resolveSecretToken label)\<rparr>,
      \<lparr>name = ''bank_account'', regex = bank_account_regex, severity = high,
       captureIndex = Some 3,
       replacement = Computed (\<lambda>match captures.
         let label = nthOr ''account'' captures 0;
             separator = nthOr '': '' captures 1
         in label @ separator @ ''[REDACTED_ACCOUNT_NUMBER]'')\<rparr>,
      \<lparr>name = ''project_code'', regex = project_code_regex, severity = high,
       captureIndex = Some 3,
       replacement = Computed (\<lambda>match captures.
         let label = nthOr ''project code'' captures 0;
             separator = nthOr '': '' captures 1;
             suffix = nthOr [] captures 3
         in label @ separator @ ''[REDACTED_PROJECT_CODE]'' @ suffix)\<rparr>]"

definition computeRisk :: "nat \<Rightarrow> nat \<Rightarrow> RiskLevel" where
  "computeRisk redactionCount highRiskCount =
     (if highRiskCount \<ge> 1 \<or> redactionCount \<ge> 5 then HIGH else LOW)"

text \<open>
  The four patterns of \<open>computeConfidence\<close>; the last is
  \<open>/\b(?:password|pwd|api[_\s-]*key|token|secret)\b\s*[:=]\s*[a-zA-Z0-9_\-]{8,}/i\<close>.
\<close>

definition unresolved_assignment_regex :: regex where
  "unresolved_assignment_regex =
     seqs [WordB,
           alts [liti ''password'', liti ''pwd'',
                 seqs [liti ''api'', Star labelGap, liti ''key''],
                 liti ''token'', liti ''secret''],
           WordB, assignSep, orMore 8 tokenChar]"

definition unresolvedSensitivePatterns :: "regex list" where
  "unresolvedSensitivePatterns =
     [ssn_regex, credit_card_regex, aws_access_key_regex, unresolved_assignment_regex]"

definition computeConfidence :: "string \<Rightarrow> RedactionConfidence" where
  "computeConfidence cleaned =
     (if list_ex (\<lambda>pattern. regexTest pattern cleaned) unresolvedSensitivePatterns
      then LOW else HIGH)"

text \<open>
  The result of \<open>runPrivacyPipeline\<close> and the \<open>ContextSnapshot\<close> of the server share four
  fields; they are the fields of the common parent record.
\<close>

record Redaction =
  cleanedText :: string
  redactionCount :: nat
  riskLevel :: RiskLevel
  confidence :: RedactionConfidence

record PrivacyResult = Redaction +
  syntheticMap :: "string \<rightharpoonup> string"

text \<open>The replacement text of a pattern for one match.\<close>

definition replacementFor :: "Pattern \<Rightarrow> string \<Rightarrow> string list \<Rightarrow> string" where
  "replacementFor pattern match captures =
     (case replacement pattern of
        Fixed s \<Rightarrow> s
      | Computed f \<Rightarrow> f match captures)"

definition sensitiveValueOf :: "Pattern \<Rightarrow> string \<Rightarrow> string list \<Rightarrow> string" where
  "sensitiveValueOf pattern match captures =
     (case captureIndex pattern of
        None \<Rightarrow> match
      | Some i \<Rightarrow>
          if i \<noteq> 0 \<and> nthOr [] captures (i - 1) \<noteq> []
          then nthOr [] captures (i - 1) else match)"

text \<open>
  The running state of the loop in \<open>runPrivacyPipeline\<close>: text, redaction count, count of
  high-severity redactions, synthetic map.
\<close>

type_synonym pstate = "string \<times> nat \<times> nat \<times> (string \<rightharpoonup> string)"

text \<open>What one call of the replace callback does to the counters and the map.\<close>

definition recordCall :: "Pattern \<Rightarrow> string \<times> string list \<Rightarrow>
    nat \<times> nat \<times> (string \<rightharpoonup> string) \<Rightarrow> nat \<times> nat \<times> (string \<rightharpoonup> string)" where
  "recordCall pattern call acc =
     (case (call, acc) of
        ((match, captures), (count, highCount, smap)) \<Rightarrow>
          (count + 1,
           (if severity pattern = high then highCount + 1 else highCount),
           smap(sensitiveValueOf pattern match captures \<mapsto>
                replacementFor pattern match captures)))"

definition applyPattern :: "pstate \<Rightarrow> Pattern \<Rightarrow> pstate" where
  "applyPattern st pattern =
     (case st of
        (text, acc) \<Rightarrow>
          (case replaceAll (regex pattern) (replacementFor pattern) text of
             (text', calls) \<Rightarrow> (text', foldl (\<lambda>a call. recordCall pattern call a) acc calls)))"

definition runPrivacyPipeline :: "string \<Rightarrow> PrivacyResult" where
  "runPrivacyPipeline text =
     (case foldl applyPattern (text, 0, 0, Map.empty) PATTERNS of
        (cleaned, count, highCount, smap) \<Rightarrow>
          \<lparr>cleanedText = cleaned,
           redactionCount = count,
           riskLevel = computeRisk count highCount,
           confidence = computeConfidence cleaned,
           syntheticMap = smap\<rparr>)"

text \<open>
  A pattern can only match in a text that holds a character it cannot do without:
  \<open>needs q r\<close> says that every match of \<open>r\<close> consumes a character of the class \<open>q\<close>.
\<close>

fun needs :: "(char \<Rightarrow> bool) \<Rightarrow> regex \<Rightarrow> bool" where
  "needs q Eps = False"
| "needs q (Sym p) = (\<forall>c. p c \<longrightarrow> q c)"
| "needs q (Seq a b) = (needs q a \<or> needs q b)"
| "needs q (Alt a b) = (needs q a \<and> needs q b)"
| "needs q (Star a) = False"
| "needs q (Lazy a) = False"
| "needs q (Group n a) = needs q a"
| "needs q WordB = False"
| "needs q NotAfterWord = False"

definition restOf :: "mstate \<Rightarrow> string" where
  "restOf st = fst (snd st)"

section \<open>Embedding service\<close>

text \<open>A thrown \<open>Error\<close>, with its message.\<close>

datatype error = Error string

datatype EmbeddingProvider = openai | gemini | local_provider

text \<open>
  What the service reads from outside: the provider and the model that
  \<open>resolveEmbeddingProvider\<close> and \<open>resolveEmbeddingModel\<close> return, the number in
  \<open>MEMORY_VECTOR_DIM ?? EMBEDDING_DIM\<close>, the two hash functions, and the answer of a remote
  provider to a text and a model (a vector, or an error that is thrown).
\<close>

record EmbeddingEnv =
  emb_provider :: EmbeddingProvider
  emb_model :: string
  emb_dimension :: "jsnum option"
  emb_md5 :: "string \<Rightarrow> string"
  emb_sha256 :: "string \<Rightarrow> nat list"
  emb_remote :: "EmbeddingProvider \<Rightarrow> string \<Rightarrow> string \<Rightarrow> error + real list"

type_synonym EmbeddingCache = "string \<rightharpoonup> real list"

definition DEFAULT_LOCAL_DIMENSION :: nat where
  "DEFAULT_LOCAL_DIMENSION = 768"

text \<open>\<open>Number(undefined)\<close> is NaN, so an unset variable gives the default.\<close>

definition resolveTargetDimension :: "jsnum option \<Rightarrow> nat" where
  "resolveTargetDimension v =
     (case v of
        Some (Finite x) \<Rightarrow> (if x > 0 then nat \<lfloor>x\<rfloor> else DEFAULT_LOCAL_DIMENSION)
      | Some NotFinite \<Rightarrow> DEFAULT_LOCAL_DIMENSION
      | None \<Rightarrow> DEFAULT_LOCAL_DIMENSION)"

definition alignVectorDimension :: "real list \<Rightarrow> nat \<Rightarrow> real list" where
  "alignVectorDimension vector targetDimension =
     (if targetDimension \<le> 0 then vector
      else if length vector = targetDimension then vector
      else if length vector > targetDimension then take targetDimension vector
      else vector @ replicate (targetDimension - length vector) 0)"

definition normalize :: "real list \<Rightarrow> real list" where
  "normalize vector =
     (let norm = sqrt (foldl (\<lambda>sum val. sum + val * val) 0 vector)
      in if norm = 0 then vector else map (\<lambda>val. val / norm) vector)"

definition generateLocalEmbedding :: "(string \<Rightarrow> nat list) \<Rightarrow> string \<Rightarrow> nat \<Rightarrow> real list" where
  "generateLocalEmbedding sha text dimension =
     (let digest = sha text;
          vector = map (\<lambda>i. let base = (if digest = [] then 0 else digest ! (i mod length digest));
                                 mixed = (base + i * 31) mod 256
                             in real mixed / 127.5 - 1)
                       [0 ..< dimension]
      in normalize vector)"

definition providerName :: "EmbeddingProvider \<Rightarrow> string" where
  "providerName p = (case p of openai \<Rightarrow> ''openai'' | gemini \<Rightarrow> ''gemini'' | local_provider \<Rightarrow> ''local'')"

definition cacheKeyFor :: "(string \<Rightarrow> string) \<Rightarrow> string \<Rightarrow> EmbeddingProvider \<Rightarrow> string \<Rightarrow> string" where
  "cacheKeyFor md text p model = md (providerName p @ ''|'' @ model @ ''|'' @ text)"

text \<open>
  \<open>generateEmbedding\<close> on the loaded cache: the result (a vector, or the provider's error
  thrown on) and the cache after the call.
\<close>

definition generateEmbedding ::
  "EmbeddingEnv \<Rightarrow> EmbeddingCache \<Rightarrow> string \<Rightarrow> (error + real list) \<times> EmbeddingCache" where
  "generateEmbedding env cache text =
     (let normalizedText = collapseSpaces (trim text)
      in if normalizedText = [] then (Inr [], cache)
         else
           (let p = emb_provider env;
                model = emb_model env;
                key = cacheKeyFor (emb_md5 env) normalizedText p model
            in case cache key of
                 Some cached \<Rightarrow> (Inr cached, cache)
               | None \<Rightarrow>
                   (case (case p of
                            gemini \<Rightarrow> emb_remote env gemini normalizedText model
                          | local_provider \<Rightarrow>
                              Inr (generateLocalEmbedding (emb_sha256 env) normalizedText
                                     (resolveTargetDimension (emb_dimension env)))
                          | openai \<Rightarrow> emb_remote env openai normalizedText model) of
                      Inl e \<Rightarrow> (Inl e, cache)
                    | Inr vector \<Rightarrow>
                        (let aligned = alignVectorDimension vector
                                         (resolveTargetDimension (emb_dimension env))
                         in (Inr aligned, cache(key \<mapsto> aligned))))))"

section \<open>Memory repository\<close>

record MemoryRecord =
  rec_id :: string
  rec_text :: string
  rec_vector :: "real list"
  rec_createdAt :: string
  rec_category :: "string option"
  rec_source :: "string option"

definition DOCUMENTS_TABLE :: string where
  "DOCUMENTS_TABLE = ''documents''"

definition FACTS_TABLE :: string where
  "FACTS_TABLE = ''user_facts''"

type_synonym Tables = "string \<rightharpoonup> MemoryRecord list"

text \<open>A row that a vector search returns: the record and its \<open>_distance\<close>, if it has one.\<close>

type_synonym Row = "MemoryRecord \<times> real option"

text \<open>
  What the repository reads from outside: the embedding service's environment, the error
  with which the database connection fails if it does, the vector search of the database
  (rows of a table for a query vector and a limit, or an error), the two variables
  \<open>MEMORY_QUERY_SCOPE\<close> and \<open>MEMORY_STRICT_QUERY_MATCH\<close>, and the fresh id and the time stamp
  of a record that is written.
\<close>

record RepoEnv =
  repo_embedding :: EmbeddingEnv
  repo_dbError :: "error option"
  repo_vectorSearch :: "string \<Rightarrow> MemoryRecord list \<Rightarrow> real list \<Rightarrow> nat \<Rightarrow> error + Row list"
  repo_queryScope :: "string option"
  repo_strictMatch :: "string option"
  repo_uuid :: string
  repo_now :: string

subsection \<open>Write path\<close>

text \<open>
  \<open>saveRecord\<close>: the outcome (done, or the error thrown on), the cache and the tables after
  the call.
\<close>

definition saveRecord ::
  "RepoEnv \<Rightarrow> EmbeddingCache \<times> Tables \<Rightarrow> string \<Rightarrow> string \<Rightarrow> string option \<Rightarrow> string option \<Rightarrow>
   (error + unit) \<times> EmbeddingCache \<times> Tables" where
  "saveRecord env st tableName text src cat =
     (case st of
        (cache, tables) \<Rightarrow>
          (case generateEmbedding (repo_embedding env) cache text of
             (Inl e, cache') \<Rightarrow> (Inl e, cache', tables)
           | (Inr vector, cache') \<Rightarrow>
               if length vector = 0 then (Inr (), cache', tables)
               else
                 (let newRecord = \<lparr>rec_id = repo_uuid env, rec_text = text, rec_vector = vector,
                                rec_createdAt = repo_now env, rec_category = cat,
                                rec_source = src\<rparr>
                  in case repo_dbError env of
                       Some e \<Rightarrow> (Inl e, cache', tables)
                     | None \<Rightarrow>
                         (case tables tableName of
                            Some rows \<Rightarrow> (Inr (), cache', tables(tableName \<mapsto> rows @ [newRecord]))
                          | None \<Rightarrow> (Inr (), cache', tables(tableName \<mapsto> [newRecord]))))))"

definition saveDocument ::
  "RepoEnv \<Rightarrow> EmbeddingCache \<times> Tables \<Rightarrow> string \<Rightarrow> string option \<Rightarrow>
   (error + unit) \<times> EmbeddingCache \<times> Tables" where
  "saveDocument env st text sourceFile =
     saveRecord env st DOCUMENTS_TABLE text (Some ''document'') sourceFile"

definition saveUserFact ::
  "RepoEnv \<Rightarrow> EmbeddingCache \<times> Tables \<Rightarrow> string \<Rightarrow> string \<Rightarrow>
   (error + unit) \<times> EmbeddingCache \<times> Tables" where
  "saveUserFact env st factText category =
     saveRecord env st FACTS_TABLE factText (Some ''user_fact'') (Some category)"

subsection \<open>Lexical signals\<close>

record SearchResult =
  sr_text :: string
  sr_score :: real
  sr_source :: string
  sr_category :: "string option"
  sr_keywordHits :: nat
  sr_phraseMatch :: bool

datatype MemoryQueryScope = hybrid | facts_only | documents_only

definition STOP_WORDS :: "string list" where
  "STOP_WORDS =
     [''a'', ''an'', ''and'', ''are'', ''do'', ''for'', ''i'', ''in'', ''is'', ''me'', ''my'',
      ''of'', ''on'', ''the'', ''to'', ''what'', ''you'', ''your'']"

text \<open>\<open>s.replace(/[^a-z0-9\s]/g, " ")\<close>\<close>

definition blankNonAlnum :: "string \<Rightarrow> string" where
  "blankNonAlnum s = map (\<lambda>c. if isLower c \<or> isDigit c \<or> isSpace c then c else CHR '' '') s"

definition normalizeLexicalText :: "string \<Rightarrow> string" where
  "normalizeLexicalText text = trim (collapseSpaces (blankNonAlnum (toLowerCase text)))"

definition tokenizeQuery :: "string \<Rightarrow> string list" where
  "tokenizeQuery text =
     filter (\<lambda>token. length token \<ge> 2 \<and> token \<notin> set STOP_WORDS)
       (map trim (splitSpaces (normalizeLexicalText text)))"

text \<open>\<open>set.add(x)\<close> on a set kept in insertion order, and \<open>s.slice(0, -n)\<close>.\<close>

definition setAdd :: "'a list \<Rightarrow> 'a \<Rightarrow> 'a list" where
  "setAdd xs x = (if x \<in> set xs then xs else xs @ [x])"

definition sliceEnd :: "string \<Rightarrow> nat \<Rightarrow> string" where
  "sliceEnd s n = take (length s - n) s"

definition expandTokenVariants :: "string \<Rightarrow> string list" where
  "expandTokenVariants token =
     (let v0 = [token];
          v1 = (if endsWith token ''ies'' \<and> length token > 4
                then setAdd v0 (sliceEnd token 3 @ ''y'') else v0);
          v2 = (if endsWith token ''ences'' \<and> length token > 7
                then setAdd v1 (sliceEnd token 5) else v1);
          v3 = (if endsWith token ''ence'' \<and> length token > 6
                then setAdd v2 (sliceEnd token 4) else v2);
          v4 = (if endsWith token ''es'' \<and> length token > 4
                then setAdd v3 (sliceEnd token 2) else v3);
          v5 = (if endsWith token ''s'' \<and> length token > 3
                then setAdd v4 (sliceEnd token 1) else v4);
          v6 = (if endsWith token ''ing'' \<and> length token > 5
                then setAdd v5 (sliceEnd token 3) else v5);
          v7 = (if endsWith token ''ed'' \<and> length token > 4
                then setAdd v6 (sliceEnd token 2) else v6)
      in filter (\<lambda>variant. length variant \<ge> 2) v7)"

text \<open>The loop of \<open>countKeywordHits\<close> over the tokens, with the running count.\<close>

fun countHitsLoop :: "string \<Rightarrow> string list \<Rightarrow> nat \<Rightarrow> nat" where
  "countHitsLoop lower [] hits = hits"
| "countHitsLoop lower (token # tokens) hits =
     (let variants = expandTokenVariants token
      in countHitsLoop lower tokens
           (if list_ex (\<lambda>variant. includesStr lower variant) variants then hits + 1 else hits))"

definition countKeywordHits :: "string \<Rightarrow> string list \<Rightarrow> nat" where
  "countKeywordHits text tokens =
     (if length tokens = 0 then 0
      else countHitsLoop (normalizeLexicalText text) tokens 0)"

subsection \<open>Personal intent\<close>

datatype PersonalIntent = name_intent | phone_intent | email_intent

text \<open>\<open>/\bname\b/\<close>, \<open>/\b(phone|mobile|contact)\b/\<close> and \<open>/\bemail\b/\<close>\<close>

definition name_word_regex :: regex where
  "name_word_regex = seqs [WordB, lit ''name'', WordB]"

definition phone_word_regex :: regex where
  "phone_word_regex =
     seqs [WordB, Group 1 (alts [lit ''phone'', lit ''mobile'', lit ''contact'']), WordB]"

definition email_word_regex :: regex where
  "email_word_regex = seqs [WordB, lit ''email'', WordB]"

definition detectPersonalIntent :: "string \<Rightarrow> PersonalIntent option" where
  "detectPersonalIntent query =
     (let normalized = toLowerCase query
      in if regexTest name_word_regex normalized then Some name_intent
         else if regexTest phone_word_regex normalized then Some phone_intent
         else if regexTest email_word_regex normalized then Some email_intent
         else None)"

text \<open>
  \<open>/\b[A-Z][a-z]{1,}(?:\s+[A-Z][a-z]{1,})+\b/\<close> and \<open>/\b[A-Z]{2,}(?:\s+[A-Z]{2,})+\b/\<close>
\<close>

definition titleCase_regex :: regex where
  "titleCase_regex =
     seqs [WordB, Sym isUpper, orMore 1 (Sym isLower),
           Plus (seqs [Plus (Sym isSpace), Sym isUpper, orMore 1 (Sym isLower)]),
           WordB]"

definition upperCase_regex :: regex where
  "upperCase_regex =
     seqs [WordB, orMore 2 (Sym isUpper),
           Plus (seqs [Plus (Sym isSpace), orMore 2 (Sym isUpper)]),
           WordB]"

definition isLikelyNameText :: "string \<Rightarrow> bool" where
  "isLikelyNameText text = (regexTest titleCase_regex text \<or> regexTest upperCase_regex text)"

text \<open>
  \<open>/\+?\d[\d\s\-()]{7,}\d/\<close> and
  \<open>/\b[A-Za-z0-9._%+-]+@[A-Za-z0-9.-]+\.[A-Za-z]{2,}\b/\<close>
\<close>

definition phone_shape_regex :: regex where
  "phone_shape_regex =
     seqs [Opt (chr CHR ''+''), digit,
           orMore 7 (Sym (\<lambda>c. isDigit c \<or> isSpace c \<or> c = CHR ''-'' \<or> c = CHR ''('' \<or> c = CHR '')'')),
           digit]"

definition email_shape_regex :: regex where
  "email_shape_regex =
     seqs [WordB,
           Plus (Sym (\<lambda>c. isAlnum c \<or> c \<in> set ''._%+-'')),
           chr CHR ''@'',
           Plus (Sym (\<lambda>c. isAlnum c \<or> c \<in> set ''.-'')),
           chr CHR ''.'',
           orMore 2 (Sym isAlpha),
           WordB]"

definition matchesPersonalIntent :: "string \<Rightarrow> PersonalIntent \<Rightarrow> bool" where
  "matchesPersonalIntent text intent =
     (if intent = name_intent then isLikelyNameText text
      else if intent = phone_intent then regexTest phone_shape_regex text
      else regexTest email_shape_regex text)"

subsection \<open>Search path\<close>

definition resolveMemoryQueryScope :: "string option \<Rightarrow> MemoryQueryScope" where
  "resolveMemoryQueryScope v =
     (let raw = trim (toLowerCase (case v of None \<Rightarrow> ''hybrid'' | Some s \<Rightarrow> s))
      in if raw = ''facts_only'' \<or> raw = ''user_facts_only'' \<or> raw = ''facts'' then facts_only
         else if raw = ''documents_only'' \<or> raw = ''docs_only'' \<or> raw = ''documents''
         then documents_only
         else hybrid)"

definition isStrictQueryMatchEnabled :: "string option \<Rightarrow> bool" where
  "isStrictQueryMatchEnabled v =
     (let raw = trim (toLowerCase (case v of None \<Rightarrow> ''1'' | Some s \<Rightarrow> s))
      in raw \<noteq> ''0'' \<and> raw \<noteq> ''false'' \<and> raw \<noteq> ''no'')"

text \<open>The text, category and source of a record that are set and not blank, joined by spaces.\<close>

definition lexicalTextOf :: "MemoryRecord \<Rightarrow> string" where
  "lexicalTextOf r =
     joinWith '' ''
       (concat (map (\<lambda>value. case value of
                                None \<Rightarrow> []
                              | Some s \<Rightarrow> if s \<noteq> [] \<and> length (trim s) > 0 then [s] else [])
                    [Some (rec_text r), rec_category r, rec_source r]))"

definition toSearchResult :: "string \<Rightarrow> string \<Rightarrow> string list \<Rightarrow> Row \<Rightarrow> SearchResult" where
  "toSearchResult tableName normalizedFilter filterTokens row =
     (case row of
        (r, distance) \<Rightarrow>
          (let normalizedLexicalText = normalizeLexicalText (lexicalTextOf r)
           in \<lparr>sr_text = rec_text r,
               sr_score = (case distance of None \<Rightarrow> 0 | Some d \<Rightarrow> d),
               sr_source = tableName,
               sr_category = rec_category r,
               sr_keywordHits = countKeywordHits normalizedLexicalText filterTokens,
               sr_phraseMatch = (length normalizedFilter > 0
                                 \<and> includesStr normalizedLexicalText normalizedFilter)\<rparr>))"

definition boostScore :: "SearchResult \<Rightarrow> SearchResult" where
  "boostScore r =
     (if sr_phraseMatch r then r\<lparr>sr_score := max 0 (sr_score r * 0.5)\<rparr>
      else if sr_keywordHits r > 0
      then (let multiplier = max 0.6 (1 - real (sr_keywordHits r) * 0.1)
            in r\<lparr>sr_score := max 0 (sr_score r * multiplier)\<rparr>)
      else r)"

text \<open>
  \<open>searchTable\<close>: a failed connection or a failed search is thrown on; a missing table gives
  no rows.
\<close>

definition searchTable ::
  "RepoEnv \<Rightarrow> Tables \<Rightarrow> string \<Rightarrow> real list \<Rightarrow> nat \<Rightarrow> string option \<Rightarrow> error + SearchResult list" where
  "searchTable env tables tableName queryVector limit filterText =
     (case repo_dbError env of
        Some e \<Rightarrow> Inl e
      | None \<Rightarrow>
          (case tables tableName of
             None \<Rightarrow> Inr []
           | Some stored \<Rightarrow>
               (case repo_vectorSearch env tableName stored queryVector limit of
                  Inl e \<Rightarrow> Inl e
                | Inr results \<Rightarrow>
                    (let normalizedFilter =
                           normalizeLexicalText (case filterText of None \<Rightarrow> [] | Some s \<Rightarrow> s);
                         filterTokens = tokenizeQuery normalizedFilter;
                         mapped = map (toSearchResult tableName normalizedFilter filterTokens) results
                     in Inr (if normalizedFilter \<noteq> [] then map boostScore mapped else mapped)))))"

text \<open>The lexical guardrail of \<open>searchMemory\<close> on the rows of all searched tables.\<close>

definition lexicalGuard :: "bool \<Rightarrow> string \<Rightarrow> SearchResult list \<Rightarrow> SearchResult list" where
  "lexicalGuard strict query all =
     (let queryTokens = tokenizeQuery query
      in if length queryTokens > 0
         then (let lexicalMatches = filter (\<lambda>item. sr_phraseMatch item \<or> sr_keywordHits item > 0) all
               in if length lexicalMatches > 0 then lexicalMatches
                  else (case detectPersonalIntent query of
                          Some personalIntent \<Rightarrow>
                            (let intentMatches =
                                   filter (\<lambda>item. matchesPersonalIntent (sr_text item) personalIntent) all
                             in if length intentMatches > 0 then intentMatches
                                else if strict then [] else all)
                        | None \<Rightarrow> if strict then [] else all))
         else all)"

text \<open>The last loop of \<open>searchMemory\<close>: texts not seen before, until \<open>limit\<close> are collected.\<close>

fun takeUnique :: "nat \<Rightarrow> SearchResult list \<Rightarrow> string list \<Rightarrow> string list" where
  "takeUnique limit [] topK = topK"
| "takeUnique limit (item # items) topK =
     (if sr_text item \<in> set topK then takeUnique limit items topK
      else (let topK' = topK @ [sr_text item]
            in if length topK' \<ge> limit then topK' else takeUnique limit items topK'))"

text \<open>
  The searches of the tables in scope (\<open>Promise.all\<close> over them) and their rows in one list
  (\<open>searchGroups.flat()\<close>): documents first, then facts.
\<close>

definition searchAllTables ::
  "RepoEnv \<Rightarrow> Tables \<Rightarrow> real list \<Rightarrow> nat \<Rightarrow> string \<Rightarrow> error + SearchResult list" where
  "searchAllTables env tables vector limit query =
     (let scope = resolveMemoryQueryScope (repo_queryScope env);
          includeDocuments = (scope \<noteq> facts_only);
          includeFacts = (scope \<noteq> documents_only);
          docs = (if includeDocuments
                  then searchTable env tables DOCUMENTS_TABLE vector limit (Some query)
                  else Inr []);
          facts = (if includeFacts
                   then searchTable env tables FACTS_TABLE vector limit (Some query)
                   else Inr [])
      in case (docs, facts) of
           (Inl e, _) \<Rightarrow> Inl e
         | (Inr _, Inl e) \<Rightarrow> Inl e
         | (Inr ds, Inr fs) \<Rightarrow> Inr (ds @ fs))"

definition searchMemory ::
  "RepoEnv \<Rightarrow> EmbeddingCache \<times> Tables \<Rightarrow> string \<Rightarrow> nat \<Rightarrow>
   (error + string list) \<times> EmbeddingCache" where
  "searchMemory env st query limit =
     (case st of
        (cache, tables) \<Rightarrow>
          (case generateEmbedding (repo_embedding env) cache query of
             (Inl e, cache') \<Rightarrow> (Inl e, cache')
           | (Inr vector, cache') \<Rightarrow>
               if length vector = 0 then (Inr [], cache')
               else
                 (case searchAllTables env tables vector limit query of
                    Inl e \<Rightarrow> (Inl e, cache')
                  | Inr rows \<Rightarrow>
                      (let all = lexicalGuard (isStrictQueryMatchEnabled (repo_strictMatch env))
                                   query rows;
                           ordered = sort_key sr_score all
                       in (Inr (takeUnique limit ordered []), cache')))))"

section \<open>Answer orchestrator\<close>

definition FALLBACK_ANSWER :: string where
  "FALLBACK_ANSWER = ''I don't know based on the provided context.''"

definition DEFAULT_GROUNDING_MODE :: string where
  "DEFAULT_GROUNDING_MODE = ''excerpt''"


definition normalizeLine :: "string \<Rightarrow> string" where
  "normalizeLine text = toLowerCase (trim (collapseSpaces text))"


definition tokenize :: "string \<Rightarrow> string list" where
  "tokenize text =
     filter (\<lambda>token. length token \<ge> 3)
       (map trim (splitSpaces (blankNonAlnum (toLowerCase text))))"

definition isTokenMatch :: "string \<Rightarrow> string \<Rightarrow> bool" where
  "isTokenMatch queryToken lineToken =
     (lineToken = queryToken \<or> startsWith lineToken queryToken \<or> startsWith queryToken lineToken)"

text \<open>
  The orchestrator has its own copy of \<open>detectPersonalIntent\<close>, with the same text as the
  repository's, and tests a line against an intent with the patterns of
  \<open>matchesPersonalIntent\<close>.
\<close>

definition lineMatchesPersonalIntent :: "string \<Rightarrow> PersonalIntent \<Rightarrow> bool" where
  "lineMatchesPersonalIntent line intent =
     (if intent = name_intent
      then regexTest titleCase_regex line \<or> regexTest upperCase_regex line
      else if intent = phone_intent then regexTest phone_shape_regex line
      else regexTest email_shape_regex line)"

text \<open>
  \<open>line.replace(/^\[\d+\]\s*/, "")\<close>: a leading bracketed number and the whitespace behind
  it are removed.
\<close>

definition stripIndex :: "string \<Rightarrow> string" where
  "stripIndex line =
     (case line of
        [] \<Rightarrow> line
      | c # cs \<Rightarrow>
          if c = CHR ''['' \<and> takeWhile isDigit cs \<noteq> []
          then (case dropWhile isDigit cs of
                  [] \<Rightarrow> line
                | d # ds \<Rightarrow> if d = CHR '']'' then dropWhile isSpace ds else line)
          else line)"

definition lineScore :: "string list \<Rightarrow> PersonalIntent option \<Rightarrow> string \<Rightarrow> nat" where
  "lineScore queryTokens personalIntent line =
     (let lineTokens = tokenize line;
          score = length (filter (\<lambda>token. list_ex (\<lambda>lineToken. isTokenMatch token lineToken) lineTokens)
                            queryTokens)
      in case personalIntent of
           None \<Rightarrow> score
         | Some intent \<Rightarrow> if lineMatchesPersonalIntent line intent then score + 2 else score)"

text \<open>The scoring loop of \<open>pickExtractiveLine\<close>, with the best line and best score so far.\<close>

fun bestLineLoop ::
  "string list \<Rightarrow> PersonalIntent option \<Rightarrow> string list \<Rightarrow> string option \<times> int \<Rightarrow>
   string option \<times> int" where
  "bestLineLoop queryTokens personalIntent [] best = best"
| "bestLineLoop queryTokens personalIntent (line # lines) (bestLine, bestScore) =
     (let score = int (lineScore queryTokens personalIntent line)
      in bestLineLoop queryTokens personalIntent lines
           (if score > bestScore then (Some line, score) else (bestLine, bestScore)))"

definition contextLines :: "string \<Rightarrow> string list" where
  "contextLines context =
     filter (\<lambda>line. length line > 0) (map (\<lambda>line. trim (stripIndex line)) (splitOn CHR 0x0A context))"

definition pickExtractiveLine :: "string \<Rightarrow> string \<Rightarrow> string option" where
  "pickExtractiveLine context query =
     (let lines = contextLines context
      in if length lines = 0 then None
         else
           (let queryTokens = tokenize query;
                personalIntent = detectPersonalIntent query
            in if length queryTokens = 0
               then (case personalIntent of
                       None \<Rightarrow> Some (hd lines)
                     | Some intent \<Rightarrow>
                         (case find (\<lambda>line. lineMatchesPersonalIntent line intent) lines of
                            Some intentLine \<Rightarrow> Some intentLine
                          | None \<Rightarrow> Some (hd lines)))
               else (case bestLineLoop queryTokens personalIntent lines (None, -1) of
                       (bestLine, bestScore) \<Rightarrow> if bestScore \<le> 0 then None else bestLine)))"

text \<open>The lines against which \<open>isGroundedAnswer\<close> compares an answer.\<close>

definition groundingLines :: "string \<Rightarrow> string list" where
  "groundingLines context =
     filter (\<lambda>line. length line \<ge> 8)
       (map (\<lambda>line. normalizeLine (stripIndex line)) (splitOn CHR 0x0A context))"

text \<open>\<open>/[a-z0-9]{3,}/i\<close>\<close>

definition alnum_run_regex :: regex where
  "alnum_run_regex = orMore 3 (Sym isAlnum)"

text \<open>The first argument is the variable \<open>ARCHESTRA_GROUNDING_MODE\<close>.\<close>

definition isGroundedAnswer :: "string option \<Rightarrow> string \<Rightarrow> string \<Rightarrow> bool" where
  "isGroundedAnswer modeVar answer context =
     (let normalizedAnswer = normalizeLine answer
      in if length normalizedAnswer < 6 then False
         else if \<not> regexTest alnum_run_regex normalizedAnswer then False
         else
           (let lines = groundingLines context;
                mode = toLowerCase (case modeVar of None \<Rightarrow> DEFAULT_GROUNDING_MODE | Some s \<Rightarrow> s)
            in if mode = ''exact'' then list_ex (\<lambda>line. line = normalizedAnswer) lines
               else list_ex (\<lambda>line. includesStr line normalizedAnswer) lines))"

definition orElse :: "'a option \<Rightarrow> 'a \<Rightarrow> 'a" where
  "orElse v d = (case v of None \<Rightarrow> d | Some x \<Rightarrow> x)"

definition enforceGrounding :: "string option \<Rightarrow> string \<Rightarrow> string \<Rightarrow> string \<Rightarrow> string" where
  "enforceGrounding modeVar answer context query =
     (let trimmed = trim answer
      in if trimmed = [] then orElse (pickExtractiveLine context query) FALLBACK_ANSWER
         else if trimmed = FALLBACK_ANSWER then orElse (pickExtractiveLine context query) trimmed
         else if isGroundedAnswer modeVar trimmed context then trimmed
         else orElse (pickExtractiveLine context query) FALLBACK_ANSWER)"

text \<open>
  \<open>generateArchestraAnswer\<close>. Both provider branches end in \<open>enforceGrounding\<close> on the text
  of the provider's reply; the reply (a text, or an error that is thrown, such as a missing
  key) is an input.
\<close>

record OrchestratorEnv =
  orch_extractiveMode :: "string option"
  orch_groundingMode :: "string option"
  orch_reply :: "error + string"


section \<open>MCP server: context snapshots\<close>


record ContextSnapshot = Redaction +
  rawContext :: string
  resultCount :: nat

text \<open>\<open>results.map((text, index) => `[${index + 1}] ${text}`).join("\n")\<close>\<close>

definition buildRawContext :: "string list \<Rightarrow> string" where
  "buildRawContext results =
     joinWith [CHR 0x0A]
       (map (\<lambda>(index, text). ''['' @ showNat (index + 1) @ ''] '' @ text)
            (zip [0 ..< length results] results))"

definition snapshotContext :: "string list \<Rightarrow> ContextSnapshot" where
  "snapshotContext results =
     (let raw = buildRawContext results;
          r = runPrivacyPipeline raw
      in \<lparr>cleanedText = cleanedText r,
          redactionCount = redactionCount r,
          riskLevel = riskLevel r,
          confidence = confidence r,
          rawContext = raw,
          resultCount = length results\<rparr>)"

definition isSafe :: "ContextSnapshot \<Rightarrow> bool" where
  "isSafe snapshot = (confidence snapshot = HIGH \<and> riskLevel snapshot = LOW)"

text \<open>The loop of \<open>pickSafeContext\<close>, entered with \<open>size = 1\<close> (\<open>sz\<close> below).\<close>

function pickFrom :: "string list \<Rightarrow> ContextSnapshot \<Rightarrow> nat \<Rightarrow> ContextSnapshot" where
  "pickFrom results fullSnapshot sz =
     (if sz \<le> length results
      then (let candidate = snapshotContext (take sz results)
            in if isSafe candidate then candidate
               else pickFrom results fullSnapshot (sz + 1))
      else fullSnapshot)"
  by pat_completeness auto
termination
  by (relation "measure (\<lambda>(results, fullSnapshot, sz). Suc (length results) - sz)") auto

declare pickFrom.simps [simp del]

definition pickSafeContext :: "string list \<Rightarrow> ContextSnapshot" where
  "pickSafeContext results =
     (let fullSnapshot = snapshotContext results
      in if isSafe fullSnapshot then fullSnapshot
         else pickFrom results fullSnapshot 1)"

section \<open>MCP server: tool calls\<close>




record ToolResult =
  tr_text :: string
  tr_isError :: bool


text \<open>
  The variables the handlers read, the repository's and the orchestrator's environment, and
  the value of \<open>Date.now()\<close> when the consent gate is asked.
\<close>

record ServerEnv =
  srv_repo :: RepoEnv
  srv_orchestrator :: OrchestratorEnv
  srv_topK :: "jsnum option"
  srv_maxChars :: "jsnum option"
  srv_allowOriginal :: bool
  srv_consentHookEnable :: "string option"
  srv_archestraEnable :: "string option"
  srv_archestraProvider :: "string option"
  srv_now :: int

text \<open>The state the handlers work on: embedding cache, tables and consent map.\<close>

record ServerState =
  st_cache :: EmbeddingCache
  st_tables :: Tables
  st_consents :: consents

type_synonym emitted = "(DashboardEventType \<times> payload) list"





text \<open>
  The handler of \<open>save_memory\<close>. The arguments are \<open>fact\<close> and \<open>category\<close> where they are
  strings.
\<close>

definition saveMemory ::
  "ServerEnv \<Rightarrow> ServerState \<Rightarrow> string option \<Rightarrow> string option \<Rightarrow>
   ToolResult \<times> emitted \<times> ServerState" where
  "saveMemory env st factArg categoryArg =
     (let factText = orElse factArg [];
          category = orElse categoryArg ''general''
      in if factText = []
         then (\<lparr>tr_text = ''ERROR: 'fact' is required.'', tr_isError = True\<rparr>, [], st)
         else (case saveUserFact (srv_repo env) (st_cache st, st_tables st) factText category of
                 (Inr u, cache', tables') \<Rightarrow>
                   (\<lparr>tr_text = ''MEMORY_SAVED: Saved fact to category '' @ [CHR 0x27] @ category
                               @ [CHR 0x27] @ ''.'',
                     tr_isError = False\<rparr>,
                    [(memory_saved, [(''fact'', PStr factText), (''category'', PStr category)])],
                    st\<lparr>st_cache := cache', st_tables := tables'\<rparr>)
               | (Inl e, cache', tables') \<Rightarrow>
                   (\<lparr>tr_text = ''ERROR: Failed to save memory.'', tr_isError = True\<rparr>,
                    [],
                    st\<lparr>st_cache := cache', st_tables := tables'\<rparr>)))"

section \<open>Sample environments\<close>

text \<open>
  Concrete environments and states on which the handlers are run: the local embedding
  provider with stand-ins for the two hash functions, a database whose vector search
  returns the first rows of the table at distance 1, and no variable set.
\<close>

definition sampleEmbeddingEnv :: EmbeddingEnv where
  "sampleEmbeddingEnv =
     \<lparr>emb_provider = local_provider,
      emb_model = ''local-hash-768'',
      emb_dimension = None,
      emb_md5 = (\<lambda>s. s),
      emb_sha256 = (\<lambda>s. map of_char s),
      emb_remote = (\<lambda>p t m. Inl (Error ''offline''))\<rparr>"

definition sampleRepoEnv :: RepoEnv where
  "sampleRepoEnv =
     \<lparr>repo_embedding = sampleEmbeddingEnv,
      repo_dbError = None,
      repo_vectorSearch = (\<lambda>tableName stored queryVector limit.
                             Inr (map (\<lambda>r. (r, Some 1)) (take limit stored))),
      repo_queryScope = None,
      repo_strictMatch = None,
      repo_uuid = ''00000000-0000-4000-8000-000000000001'',
      repo_now = ''2026-01-01T00:00:00.000Z''\<rparr>"

definition sampleServerEnv :: ServerEnv where
  "sampleServerEnv =
     \<lparr>srv_repo = sampleRepoEnv,
      srv_orchestrator = \<lparr>orch_extractiveMode = None, orch_groundingMode = None,
                           orch_reply = Inl (Error ''Missing API key.'')\<rparr>,
      srv_topK = None,
      srv_maxChars = None,
      srv_allowOriginal = False,
      srv_consentHookEnable = None,
      srv_archestraEnable = None,
      srv_archestraProvider = None,
      srv_now = 1000\<rparr>"

definition sampleFact :: "string \<Rightarrow> MemoryRecord" where
  "sampleFact s =
     \<lparr>rec_id = ''00000000-0000-4000-8000-000000000000'', rec_text = s, rec_vector = [],
      rec_createdAt = ''2026-01-01T00:00:00.000Z'', rec_category = Some ''general'',
      rec_source = Some ''user_fact''\<rparr>"

text \<open>A state whose only table is \<open>user_facts\<close>, with one fact, and the given consent map.\<close>

definition sampleState :: "string \<Rightarrow> consents \<Rightarrow> ServerState" where
  "sampleState s m =
     \<lparr>st_cache = Map.empty, st_tables = [FACTS_TABLE \<mapsto> [sampleFact s]], st_consents = m\<rparr>"

text \<open>An event of the dashboard, told from others by its id.\<close>

definition sampleEvent :: "string \<Rightarrow> DashboardEvent" where
  "sampleEvent i = \<lparr>ev_id = i, ev_type = query_received,
                     ev_timestamp = ''2026-01-01T00:00:00.000Z'', ev_payload = []\<rparr>"

text \<open>A context of two lines.\<close>

definition teaCoffee :: string where
  "teaCoffee = ''[1] User likes tea.\<newline>[2] User likes coffee.''"

section \<open>The specification's reading of the keyword count\<close>

text \<open>
  The specification describes \<open>keywordHits\<close> as the count of distinct query tokens that
  match any token in the row via prefix-or-equality match, after the expansion of the
  query token. \<open>specKeywordHits\<close> follows these words, to be compared with what
  \<open>countKeywordHits\<close> computes: the row's tokens are the pieces of its normalized text
  between spaces, and two tokens match if they are equal or one is a prefix of the other.
\<close>

definition specTokenMatch :: "string \<Rightarrow> string \<Rightarrow> bool" where
  "specTokenMatch queryToken rowToken =
     (rowToken = queryToken \<or> startsWith rowToken queryToken \<or> startsWith queryToken rowToken)"

definition specKeywordHits :: "MemoryRecord \<Rightarrow> string \<Rightarrow> nat" where
  "specKeywordHits r query =
     (let rowTokens = filter (\<lambda>w. w \<noteq> []) (splitSpaces (normalizeLexicalText (lexicalTextOf r)))
      in length (remdups
           (filter (\<lambda>token. list_ex (\<lambda>variant. list_ex (specTokenMatch variant) rowTokens)
                                      (expandTokenVariants token))
                   (tokenizeQuery query))))"

section \<open>Grounding of an answer in a line\<close>

text \<open>
  The comparison of \<open>isGroundedAnswer\<close> between an answer and one normalized line of the
  context: equality in the mode \<open>exact\<close>, containment of the normalized answer in any
  other mode (the default is \<open>excerpt\<close>).
\<close>

definition answerMatchesLine :: "string option \<Rightarrow> string \<Rightarrow> string \<Rightarrow> bool" where
  "answerMatchesLine modeVar answer line =
     (if toLowerCase (orElse modeVar DEFAULT_GROUNDING_MODE) = ''exact''
      then line = normalizeLine answer
      else includesStr line (normalizeLine answer))"

section \<open>The two selections of the lexical guardrail\<close>

text \<open>
  The predicates of the two filters of \<open>searchMemory\<close>: a row with a phrase match or a
  keyword hit, and a row whose text has the shape of the personal intent that the query
  expresses (no row has it when the query expresses none).
\<close>

definition lexicalOverlap :: "SearchResult \<Rightarrow> bool" where
  "lexicalOverlap item = (sr_phraseMatch item \<or> sr_keywordHits item > 0)"

definition intentShape :: "string \<Rightarrow> SearchResult \<Rightarrow> bool" where
  "intentShape query item =
     (case detectPersonalIntent query of
        None \<Rightarrow> False
      | Some personalIntent \<Rightarrow> matchesPersonalIntent (sr_text item) personalIntent)"

section \<open>The redaction pipeline with its replacements marked\<close>

text \<open>
  To say where a second run of the pipeline can fire, the pipeline is run on a text whose
  characters carry a mark: a character of the input has the mark \<open>False\<close>, a character of a
  replacement text that a pattern puts in has the mark \<open>True\<close>. \<open>replaceFromM\<close> is
  \<open>replaceFrom\<close> on such a text: the pattern is matched against the characters alone, a
  character that is passed over keeps its mark, and a replacement text is marked as a whole.
  \<open>runMarked\<close> is the loop of \<open>runPrivacyPipeline\<close> over the patterns on the marked text;
  without the marks its result is the cleaned text of \<open>runPrivacyPipeline\<close>.
\<close>

type_synonym marked = "char \<times> bool"

definition kept :: "string \<Rightarrow> marked list" where
  "kept s = map (\<lambda>c. (c, False)) s"

definition put :: "string \<Rightarrow> marked list" where
  "put s = map (\<lambda>c. (c, True)) s"

definition plain :: "marked list \<Rightarrow> string" where
  "plain ms = map fst ms"

function replaceFromM ::
  "regex \<Rightarrow> (string \<Rightarrow> string list \<Rightarrow> string) \<Rightarrow> char option \<Rightarrow> marked list \<Rightarrow> marked list" where
  "replaceFromM r f pv rest =
     (case matchAt r pv (plain rest) of
        None \<Rightarrow>
          (case rest of
             [] \<Rightarrow> []
           | x # xs \<Rightarrow> x # replaceFromM r f (Some (fst x)) xs)
      | Some (pv', rest', caps) \<Rightarrow>
          (let k = length rest - length rest';
               m = take k (plain rest);
               captures = captureArray r caps
           in if length rest' < length rest
              then put (f m captures) @ replaceFromM r f pv' (drop k rest)
              else (case rest of
                      [] \<Rightarrow> put (f m captures)
                    | x # xs \<Rightarrow> put (f m captures) @ x # replaceFromM r f (Some (fst x)) xs)))"
  by pat_completeness auto
termination
  by (relation "measure (\<lambda>(r, f, pv, rest). length rest)") auto

declare replaceFromM.simps [simp del]

definition applyPatternM :: "marked list \<Rightarrow> Pattern \<Rightarrow> marked list" where
  "applyPatternM ms pattern = replaceFromM (regex pattern) (replacementFor pattern) None ms"

definition runMarked :: "string \<Rightarrow> marked list" where
  "runMarked text = foldl applyPatternM (kept text) PATTERNS"

text \<open>
  A match of a pattern at a place of a text: the text is \<open>before @ m @ after\<close>, and the
  pattern, started behind \<open>before\<close>, can end having consumed exactly \<open>m\<close>. The place is
  touched by a replacement if \<open>m\<close> holds a marked character or the character directly
  before or directly behind \<open>m\<close> is marked.
\<close>

definition lastChar :: "marked list \<Rightarrow> char option" where
  "lastChar ms = (if ms = [] then None else Some (fst (last ms)))"

definition matchesSpan :: "regex \<Rightarrow> char option \<Rightarrow> string \<Rightarrow> string \<Rightarrow> bool" where
  "matchesSpan r pv m rest = list_ex (\<lambda>st. restOf st = rest) (rmatch r (pv, m @ rest, []))"

definition touched :: "marked list \<Rightarrow> marked list \<Rightarrow> marked list \<Rightarrow> bool" where
  "touched before m after =
     ((before \<noteq> [] \<and> snd (last before)) \<or> list_ex snd m \<or> (after \<noteq> [] \<and> snd (hd after)))"

text \<open>
  The character before a place of the scan: the last character passed over, or the character
  before the start of the scan. The characters of a marked text that the runs left in
  place.
\<close>

definition charBefore :: "char option \<Rightarrow> marked list \<Rightarrow> char option" where
  "charBefore pv ms = (if ms = [] then pv else Some (fst (last ms)))"

definition leftInPlace :: "marked list \<Rightarrow> marked list" where
  "leftInPlace ms = filter (\<lambda>x. \<not> snd x) ms"

section \<open>Properties of the event bus\<close>

lemma publishEvent_length:
  "length (fst (publishEvent cfg uuid now ty pl events)) =
   min (getBufferLimit cfg) (length events + 1)"
  by (auto simp: publishEvent_def Let_def min_def)

lemma publishEvent_drop:
  "fst (publishEvent cfg uuid now ty pl events) =
   drop (length events + 1 - getBufferLimit cfg)
     (events @ [snd (publishEvent cfg uuid now ty pl events)])"
  by (simp add: publishEvent_def Let_def)

lemma getBufferLimit_default: "getBufferLimit None = 200"
  by (simp add: getBufferLimit_def numberOr_def)

lemma getBufferLimit_configured:
  "getBufferLimit (Some (Finite x)) = (if 0 < x then nat \<lfloor>x\<rfloor> else 200)"
  "getBufferLimit (Some NotFinite) = 200"
  "getBufferLimit (Some (Finite (real (Suc n)))) = Suc n"
  by (simp_all add: getBufferLimit_def numberOr_def)

text \<open>
  C9. After a call of \<open>publishEvent\<close>, from any stored list, the stored list is no longer
  than the buffer limit: it is the old list with the new event appended, cut at the front
  down to the limit, so it ends with the new event's predecessors in their order and the
  oldest events are the ones dropped. The limit is the configured number, rounded down,
  when that is a finite number above zero, and 200 when the variable is unset, not finite
  or not above zero; a ring configured to \<open>n + 1\<close> holds the last \<open>n + 1\<close> events.
\<close>

theorem publishEvent_ring_bounded:
  "length (fst (publishEvent cfg uuid now ty pl events)) \<le> getBufferLimit cfg
   \<and> length (fst (publishEvent cfg uuid now ty pl events)) =
       min (getBufferLimit cfg) (length events + 1)
   \<and> fst (publishEvent cfg uuid now ty pl events) =
       drop (length events + 1 - getBufferLimit cfg)
         (events @ [\<lparr>ev_id = uuid, ev_type = ty, ev_timestamp = now, ev_payload = pl\<rparr>])
   \<and> suffix (fst (publishEvent cfg uuid now ty pl events))
         (events @ [\<lparr>ev_id = uuid, ev_type = ty, ev_timestamp = now, ev_payload = pl\<rparr>])
   \<and> getBufferLimit None = 200
   \<and> getBufferLimit (Some NotFinite) = 200
   \<and> getBufferLimit (Some (Finite x)) = (if 0 < x then nat \<lfloor>x\<rfloor> else 200)
   \<and> getBufferLimit (Some (Finite (real (Suc n)))) = Suc n
   \<and> length (fst (publishEvent (Some (Finite (real (Suc n)))) uuid now ty pl events)) =
       min (Suc n) (length events + 1)
   \<and> fst (publishEvent (Some (Finite (real (Suc n)))) uuid now ty pl events) =
       drop (length events - n)
         (events @ [\<lparr>ev_id = uuid, ev_type = ty, ev_timestamp = now, ev_payload = pl\<rparr>])"
proof -
  have ev: "\<And>cfg. snd (publishEvent cfg uuid now ty pl events) =
      \<lparr>ev_id = uuid, ev_type = ty, ev_timestamp = now, ev_payload = pl\<rparr>"
    by (simp add: publishEvent_def Let_def)
  have d: "\<And>cfg. fst (publishEvent cfg uuid now ty pl events) =
       drop (length events + 1 - getBufferLimit cfg)
         (events @ [\<lparr>ev_id = uuid, ev_type = ty, ev_timestamp = now, ev_payload = pl\<rparr>])"
    using publishEvent_drop[of _ uuid now ty pl events] ev by simp
  have s: "suffix (fst (publishEvent cfg uuid now ty pl events))
         (events @ [\<lparr>ev_id = uuid, ev_type = ty, ev_timestamp = now, ev_payload = pl\<rparr>])"
    unfolding d by (rule suffix_drop)
  have l: "length (fst (publishEvent (Some (Finite (real (Suc n)))) uuid now ty pl events)) =
       min (Suc n) (length events + 1)"
    using publishEvent_length[of "Some (Finite (real (Suc n)))" uuid now ty pl events]
    by (simp only: getBufferLimit_configured(3))
  have d3: "fst (publishEvent (Some (Finite (real (Suc n)))) uuid now ty pl events) =
       drop (length events - n)
         (events @ [\<lparr>ev_id = uuid, ev_type = ty, ev_timestamp = now, ev_payload = pl\<rparr>])"
    using d[of "Some (Finite (real (Suc n)))"]
    by (simp only: getBufferLimit_configured(3)) simp
  have a: "length (fst (publishEvent cfg uuid now ty pl events)) \<le> getBufferLimit cfg"
    "length (fst (publishEvent cfg uuid now ty pl events)) =
       min (getBufferLimit cfg) (length events + 1)"
    using publishEvent_length[of cfg uuid now ty pl events] by simp_all
  from a d[of cfg] s getBufferLimit_default getBufferLimit_configured(2)
    getBufferLimit_configured(1)[of x] getBufferLimit_configured(3)[of n] l d3
  show ?thesis by (intro conjI)
qed

theorem publishEvent_ring_bounded_witness:
  "getBufferLimit (Some (Finite 3)) = 3
   \<and> fst (publishEvent (Some (Finite 3)) ''4'' ''2026-01-01T00:00:00.000Z'' query_received []
            [sampleEvent ''1'', sampleEvent ''2'', sampleEvent ''3''])
       = [sampleEvent ''2'', sampleEvent ''3'', sampleEvent ''4'']
   \<and> fst (publishEvent (Some (Finite 3)) ''2'' ''2026-01-01T00:00:00.000Z'' query_received []
            [sampleEvent ''1''])
       = [sampleEvent ''1'', sampleEvent ''2'']"
  using publishEvent_ring_bounded[of "Some (Finite 3)" "''4''" "''2026-01-01T00:00:00.000Z''"
          query_received "[]" "[sampleEvent ''1'', sampleEvent ''2'', sampleEvent ''3'']" 3 2]
    publishEvent_ring_bounded[of "Some (Finite 3)" "''2''" "''2026-01-01T00:00:00.000Z''"
          query_received "[]" "[sampleEvent ''1'']" 3 2]
  by (simp add: sampleEvent_def)

section \<open>Properties of the consent gate\<close>

lemma consumeConsent_true:
  "snd (consumeConsent now t m) \<Longrightarrow> \<exists>e. m (normalizeTopic t) = Some e \<and> now \<le> e"
  by (auto simp: consumeConsent_def Let_def split: option.splits if_splits)

lemma consumeConsent_removes:
  "m (normalizeTopic t) = Some e \<Longrightarrow> e \<noteq> 0 \<Longrightarrow> normalizeTopic t \<noteq> [] \<Longrightarrow>
   fst (consumeConsent now t m) (normalizeTopic t) = None"
  by (auto simp: consumeConsent_def Let_def split: option.splits if_splits)

lemma consumeConsent_twice:
  "normalizeTopic t' = normalizeTopic t \<Longrightarrow>
   \<not> snd (consumeConsent now' t' (fst (consumeConsent now t m)))"
  by (auto simp: consumeConsent_def Let_def split: option.splits if_splits)

lemma getConsentTtlMs_default: "getConsentTtlMs None = 5 * 60 * 1000"
  by (simp add: getConsentTtlMs_def numberOr_def DEFAULT_CONSENT_TTL_MS_def)

lemma getConsentTtlMs_nonneg: "0 \<le> getConsentTtlMs cfg"
  by (auto simp: getConsentTtlMs_def numberOr_def DEFAULT_CONSENT_TTL_MS_def
           split: option.splits jsnum.splits)

lemma grantConsent_entry:
  "normalizeTopic t \<noteq> [] \<Longrightarrow>
   grantConsent cfg now t m (normalizeTopic t) = Some (now + getConsentTtlMs cfg)"
  by (simp add: grantConsent_def Let_def)

lemma gateStep_budget:
  assumes st: "gateStep cfg x m = (m', ok)"
  shows "(if ok \<and> opTopic x = k then 1 else 0) + slot m' k
           \<le> (if isGrant x \<and> opTopic x = k then 1 else 0) + slot m k"
proof (cases x)
  case (Grant now topic)
  with st show ?thesis
    by (auto simp: grantConsent_def Let_def slot_def split: if_splits)
next
  case (Deny topic)
  with st show ?thesis
    by (auto simp: denyConsent_def Let_def slot_def split: if_splits)
next
  case (Consume now topic)
  with st show ?thesis
    by (auto simp: consumeConsent_def Let_def slot_def split: if_splits option.splits)
qed

lemma consumed_le_granted: "consumed cfg k ops m \<le> granted k ops + slot m k"
proof (induction ops arbitrary: m)
  case Nil
  then show ?case by simp
next
  case (Cons x xs)
  obtain m' ok where st: "gateStep cfg x m = (m', ok)"
    by (cases "gateStep cfg x m")
  have "consumed cfg k (x # xs) m =
          (if ok \<and> opTopic x = k then 1 else 0) + consumed cfg k xs m'"
    using st by simp
  also have "\<dots> \<le> (if ok \<and> opTopic x = k then 1 else 0) + (granted k xs + slot m' k)"
    using Cons[of m'] by simp
  also have "\<dots> \<le> granted k xs + ((if isGrant x \<and> opTopic x = k then 1 else 0) + slot m k)"
    using gateStep_budget[OF st, of k] by simp
  also have "\<dots> = granted k (x # xs) + slot m k"
    by (simp add: granted_def)
  finally show ?case .
qed

text \<open>
  C4. Consent is one-shot. A consume answers true only if the map held an entry for the
  trimmed, lower-cased topic whose expiry had not passed at the call. A consume that finds
  an entry (an expiry is the grant time plus the TTL, not the number 0) removes it. A
  second consume of the same topic, with no grant between, answers false at any time. In
  any history of grants, denials and consumes that starts from the empty map, the consumes
  of a topic that answer true are at most as many as the grants of that topic. A grant
  stores the call time plus the TTL, and the TTL is 5 minutes when none is configured.
\<close>

theorem consent_one_shot:
  "(snd (consumeConsent now t m) \<longrightarrow> (\<exists>e. m (normalizeTopic t) = Some e \<and> now \<le> e))
   \<and> (m (normalizeTopic t) = Some e \<and> e \<noteq> 0 \<and> normalizeTopic t \<noteq> [] \<longrightarrow>
        fst (consumeConsent now t m) (normalizeTopic t) = None)
   \<and> (normalizeTopic t' = normalizeTopic t \<longrightarrow>
        \<not> snd (consumeConsent now' t' (fst (consumeConsent now t m))))
   \<and> consumed cfg k ops Map.empty \<le> granted k ops
   \<and> (normalizeTopic t \<noteq> [] \<longrightarrow>
        grantConsent cfg now t m (normalizeTopic t) = Some (now + getConsentTtlMs cfg))
   \<and> getConsentTtlMs None = 5 * 60 * 1000"
proof -
  have "consumed cfg k ops Map.empty \<le> granted k ops"
    using consumed_le_granted[of cfg k ops Map.empty] by (simp add: slot_def)
  then show ?thesis
    using consumeConsent_true[of now t m] consumeConsent_removes[of m t e now]
      consumeConsent_twice[of t' t now' now m] grantConsent_entry[of t cfg now m]
      getConsentTtlMs_default
    by blast
qed

theorem consent_one_shot_witness:
  "snd (consumeConsent 2000 '' BANK '' (grantConsent None 1000 ''Bank'' Map.empty))
   \<and> grantConsent None 1000 ''Bank'' Map.empty (normalizeTopic '' BANK '') = Some 301000
   \<and> (301000::int) \<noteq> 0 \<and> normalizeTopic '' BANK '' \<noteq> []
   \<and> normalizeTopic ''bank'' = normalizeTopic '' BANK ''
   \<and> (\<exists>e. grantConsent None 1000 ''Bank'' Map.empty (normalizeTopic '' BANK '') = Some e \<and> 2000 \<le> e)
   \<and> fst (consumeConsent 2000 '' BANK '' (grantConsent None 1000 ''Bank'' Map.empty))
        (normalizeTopic '' BANK '') = None
   \<and> \<not> snd (consumeConsent 3000 ''bank''
         (fst (consumeConsent 2000 '' BANK '' (grantConsent None 1000 ''Bank'' Map.empty))))
   \<and> consumed None ''bank''
        [Grant 1000 ''Bank'', Consume 2000 '' BANK '', Consume 3000 ''bank''] Map.empty = 1
   \<and> granted ''bank'' [Grant 1000 ''Bank'', Consume 2000 '' BANK '', Consume 3000 ''bank''] = 1"
proof -
  have n1: "normalizeTopic '' BANK '' = ''bank''" by code_simp
  have n2: "normalizeTopic ''Bank'' = ''bank''" by code_simp
  have n3: "normalizeTopic ''bank'' = ''bank''" by code_simp
  have g: "grantConsent None 1000 ''Bank'' Map.empty = [''bank'' \<mapsto> 301000]"
    by (simp add: grantConsent_def Let_def n2 getConsentTtlMs_default)
  have c1: "consumeConsent 2000 '' BANK '' [''bank'' \<mapsto> 301000] = (Map.empty, True)"
    by (simp add: consumeConsent_def Let_def n1)
  have c2: "consumeConsent 3000 ''bank'' Map.empty = (Map.empty, False)"
    by (simp add: consumeConsent_def Let_def n3)
  have h: "snd (consumeConsent 2000 '' BANK '' (grantConsent None 1000 ''Bank'' Map.empty))
    \<and> grantConsent None 1000 ''Bank'' Map.empty (normalizeTopic '' BANK '') = Some 301000
    \<and> normalizeTopic '' BANK '' \<noteq> [] \<and> normalizeTopic ''bank'' = normalizeTopic '' BANK ''"
    by (simp add: g c1 n1 n3)
  have cnt: "consumed None ''bank''
        [Grant 1000 ''Bank'', Consume 2000 '' BANK '', Consume 3000 ''bank''] Map.empty = 1
   \<and> granted ''bank'' [Grant 1000 ''Bank'', Consume 2000 '' BANK '', Consume 3000 ''bank''] = 1"
    by (simp add: g c1 c2 n1 n2 n3 granted_def)
  show ?thesis
    using h cnt
      consent_one_shot[of 2000 "'' BANK ''" "grantConsent None 1000 ''Bank'' Map.empty"
        301000 "''bank''" 3000 None "''bank''"
        "[Grant 1000 ''Bank'', Consume 2000 '' BANK '', Consume 3000 ''bank'']"]
    by simp
qed

section \<open>Evaluating the patterns\<close>

text \<open>
  Facts used to evaluate the patterns on given texts: the character classes on the bits of
  a character, and for each pattern a character that every match must contain, so that a
  text without it is skipped as a whole.
\<close>

lemma restOf_simp [simp]: "restOf (pv, rest, caps) = rest"
  by (simp add: restOf_def)

lemma rmatch_suffix:
  "st' \<in> set (rmatch r st) \<Longrightarrow> suffix (restOf st') (restOf st)"
proof (induction r st arbitrary: st' rule: rmatch.induct)
  case (1 st)
  then show ?case by (simp add: rmatch.simps)
next
  case (2 p pv rest caps)
  then show ?case by (cases rest) (auto split: if_splits simp: suffix_Cons rmatch.simps)
next
  case (3 a b st)
  from 3(3) obtain m where m: "m \<in> set (rmatch a st)" and s: "st' \<in> set (rmatch b m)"
    by (auto simp: rmatch.simps)
  have "suffix (restOf st') (restOf m)" using 3(2)[OF m s] .
  moreover have "suffix (restOf m) (restOf st)" using 3(1)[OF m] .
  ultimately show ?case by (rule suffix_order.trans)
next
  case (4 a b st)
  from 4(3) have "st' \<in> set (rmatch a st) \<or> st' \<in> set (rmatch b st)"
    by (simp add: rmatch.simps)
  then show ?case using 4(1)[of st'] 4(2)[of st'] by blast
next
  case (5 a pv rest caps)
  from 5(3) have "st' = (pv, rest, caps) \<or>
      (\<exists>m. m \<in> set (rmatch a (pv, rest, caps)) \<and> shorter rest m \<and> st' \<in> set (rmatch (Star a) m))"
    unfolding rmatch.simps(5)[of a pv rest caps] by auto
  then show ?case
  proof
    assume "st' = (pv, rest, caps)"
    then show ?thesis by simp
  next
    assume "\<exists>m. m \<in> set (rmatch a (pv, rest, caps)) \<and> shorter rest m \<and> st' \<in> set (rmatch (Star a) m)"
    then obtain m where m: "m \<in> set (rmatch a (pv, rest, caps))" and sh: "shorter rest m"
      and s: "st' \<in> set (rmatch (Star a) m)" by blast
    have mf: "m \<in> set (filter (shorter rest) (rmatch a (pv, rest, caps)))" using m sh by simp
    have "suffix (restOf st') (restOf m)" using 5(2)[OF mf s] .
    moreover have "suffix (restOf m) (restOf (pv, rest, caps))" using 5(1)[OF m] .
    ultimately show ?thesis by (rule suffix_order.trans)
  qed
next
  case (6 a pv rest caps)
  from 6(3) have "st' = (pv, rest, caps) \<or>
      (\<exists>m. m \<in> set (rmatch a (pv, rest, caps)) \<and> shorter rest m \<and> st' \<in> set (rmatch (Lazy a) m))"
    unfolding rmatch.simps(6)[of a pv rest caps] by auto
  then show ?case
  proof
    assume "st' = (pv, rest, caps)"
    then show ?thesis by simp
  next
    assume "\<exists>m. m \<in> set (rmatch a (pv, rest, caps)) \<and> shorter rest m \<and> st' \<in> set (rmatch (Lazy a) m)"
    then obtain m where m: "m \<in> set (rmatch a (pv, rest, caps))" and sh: "shorter rest m"
      and s: "st' \<in> set (rmatch (Lazy a) m)" by blast
    have mf: "m \<in> set (filter (shorter rest) (rmatch a (pv, rest, caps)))" using m sh by simp
    have "suffix (restOf st') (restOf m)" using 6(2)[OF mf s] .
    moreover have "suffix (restOf m) (restOf (pv, rest, caps))" using 6(1)[OF m] .
    ultimately show ?thesis by (rule suffix_order.trans)
  qed
next
  case (7 n a pv rest caps)
  from 7(2) obtain m where m: "m \<in> set (rmatch a (pv, rest, caps))" and e: "restOf st' = restOf m"
    unfolding rmatch.simps(7)[of n a pv rest caps] by (auto simp: restOf_def split: prod.splits)
  from 7(1)[OF m] e show ?case by simp
next
  case (8 pv rest caps)
  then show ?case by (simp add: rmatch.simps split: if_splits)
next
  case (9 pv rest caps)
  then show ?case by (simp add: rmatch.simps split: if_splits)
qed



lemma suffix_set: "suffix xs ys \<Longrightarrow> set xs \<subseteq> set ys"
  by (auto simp: suffix_def)

lemma rmatch_needs:
  "needs q r \<Longrightarrow> \<forall>c\<in>set (restOf st). \<not> q c \<Longrightarrow> rmatch r st = []"
proof (induction r st rule: rmatch.induct)
  case (1 st)
  then show ?case by simp
next
  case (2 p pv rest caps)
  then show ?case by (cases rest) (auto simp: rmatch.simps)
next
  case (3 a b st)
  show ?case
  proof (cases "needs q a")
    case True
    with 3 show ?thesis by (simp add: rmatch.simps)
  next
    case False
    with 3(3) have nb: "needs q b" by simp
    have "\<And>m. m \<in> set (rmatch a st) \<Longrightarrow> rmatch b m = []"
    proof -
      fix m assume m: "m \<in> set (rmatch a st)"
      from rmatch_suffix[OF m] have "set (restOf m) \<subseteq> set (restOf st)"
        by (rule suffix_set)
      with 3(4) have "\<forall>c\<in>set (restOf m). \<not> q c" by blast
      from 3(2)[OF m nb this] show "rmatch b m = []" .
    qed
    then show ?thesis by (simp add: rmatch.simps)
  qed
next
  case (4 a b st)
  then show ?case by (simp add: rmatch.simps)
next
  case (5 a pv rest caps)
  then show ?case by simp
next
  case (6 a pv rest caps)
  then show ?case by simp
next
  case (7 n a pv rest caps)
  then show ?case by (simp add: rmatch.simps)
next
  case (8 pv rest caps)
  then show ?case by simp
next
  case (9 pv rest caps)
  then show ?case by simp
qed

lemma matchAt_needs:
  "needs q r \<Longrightarrow> \<forall>c\<in>set rest. \<not> q c \<Longrightarrow> matchAt r pv rest = None"
  using rmatch_needs[of q r "(pv, rest, [])"] by (simp add: matchAt_def)

lemma replaceFrom_needs:
  "needs q r \<Longrightarrow> \<forall>c\<in>set rest. \<not> q c \<Longrightarrow> replaceFrom r f pv rest = (rest, [])"
proof (induction rest arbitrary: pv)
  case Nil
  then show ?case using matchAt_needs[of q r "[]" pv]
    by (simp add: replaceFrom.simps)
next
  case (Cons c cs)
  from Cons(2,3) have "matchAt r pv (c # cs) = None"
    by (rule matchAt_needs)
  moreover from Cons have "replaceFrom r f (Some c) cs = (cs, [])" by simp
  ultimately show ?case
    by (simp add: replaceFrom.simps[of r f pv "c # cs"])
qed

lemma testFrom_needs:
  "needs q r \<Longrightarrow> \<forall>c\<in>set rest. \<not> q c \<Longrightarrow> \<not> testFrom r pv rest"
proof (induction rest arbitrary: pv)
  case Nil
  then show ?case using matchAt_needs[of q r "[]" pv] by simp
next
  case (Cons c cs)
  from Cons(2,3) have "matchAt r pv (c # cs) = None"
    by (rule matchAt_needs)
  moreover from Cons have "\<not> testFrom r (Some c) cs" by simp
  ultimately show ?case by simp
qed

lemma isDigit_bits: "isDigit (Char b0 b1 b2 b3 b4 b5 b6 b7) = (\<not> b7 \<and> \<not> b6 \<and> b5 \<and> b4 \<and> (\<not> b3 \<or> (\<not> b2 \<and> \<not> b1)))"
  by (cases b0; cases b1; cases b2; cases b3; cases b4; cases b5; cases b6; cases b7; simp add: isDigit_def code_def)

lemma isUpper_bits: "isUpper (Char b0 b1 b2 b3 b4 b5 b6 b7) =
   (\<not> b7 \<and> b6 \<and> \<not> b5 \<and> (b0 \<or> b1 \<or> b2 \<or> b3 \<or> b4) \<and> (\<not> b4 \<or> \<not> b3 \<or> (\<not> b2 \<and> \<not> (b1 \<and> b0))))"
  by (cases b0; cases b1; cases b2; cases b3; cases b4; cases b5; cases b6; cases b7; simp add: isUpper_def code_def)

lemma isLower_bits: "isLower (Char b0 b1 b2 b3 b4 b5 b6 b7) =
   (\<not> b7 \<and> b6 \<and> b5 \<and> (b0 \<or> b1 \<or> b2 \<or> b3 \<or> b4) \<and> (\<not> b4 \<or> \<not> b3 \<or> (\<not> b2 \<and> \<not> (b1 \<and> b0))))"
  by (cases b0; cases b1; cases b2; cases b3; cases b4; cases b5; cases b6; cases b7; simp add: isLower_def code_def)

lemma isSpace_bits: "isSpace (Char b0 b1 b2 b3 b4 b5 b6 b7) =
   ((\<not> b7 \<and> \<not> b6 \<and> \<not> b5 \<and> \<not> b4 \<and> b3 \<and> ((\<not> b2 \<and> (b1 \<or> b0)) \<or> (b2 \<and> \<not> b1)))
    \<or> (\<not> b6 \<and> b5 \<and> \<not> b4 \<and> \<not> b3 \<and> \<not> b2 \<and> \<not> b1 \<and> \<not> b0))"
  by (cases b0; cases b1; cases b2; cases b3; cases b4; cases b5; cases b6; cases b7; simp add: isSpace_def code_def)

lemma latin_bits: "(192 \<le> code (Char b0 b1 b2 b3 b4 b5 b6 b7) \<and> code (Char b0 b1 b2 b3 b4 b5 b6 b7) \<le> 222
     \<and> code (Char b0 b1 b2 b3 b4 b5 b6 b7) \<noteq> 215) =
   (b7 \<and> b6 \<and> \<not> b5 \<and> \<not> (b4 \<and> \<not> b3 \<and> b2 \<and> b1 \<and> b0) \<and> \<not> (b4 \<and> b3 \<and> b2 \<and> b1 \<and> b0))"
  by (cases b0; cases b1; cases b2; cases b3; cases b4; cases b5; cases b6; cases b7; simp add: code_def)

lemmas char_eval = isDigit_bits isUpper_bits isLower_bits isSpace_bits latin_bits
  isAlpha_def isAlnum_def isWordChar_def lowerChar_def


lemma exactly_numeral: "exactly (numeral k) r = Seq r (exactly (pred_numeral k) r)"
  by (simp add: numeral_eq_Suc)

lemma upTo_numeral: "upTo (numeral k) r = Alt (Seq r (upTo (pred_numeral k) r)) Eps"
  by (simp add: numeral_eq_Suc)

lemmas syntax_eval = exactly_numeral upTo_numeral between_def orMore_def Opt_def Plus_def
  lit_def liti_def chr_def chri_def digit_def alnum_def phoneSep_def tokenChar_def labelGap_def
  assignSep_def quoteOpt_def

lemma email_needs: "needs (\<lambda>c. c = CHR ''@'') email_regex"
  by (simp add: email_regex_def syntax_eval)
lemma phone_needs: "needs isDigit phone_regex"
  by (simp add: phone_regex_def syntax_eval)
lemma ssn_needs: "needs (\<lambda>c. c = CHR ''-'') ssn_regex"
  by (simp add: ssn_regex_def syntax_eval)
lemma credit_card_needs: "needs isDigit credit_card_regex"
  by (simp add: credit_card_regex_def syntax_eval)
lemma financial_amount_needs: "needs (\<lambda>c. c = CHR ''$'' \<or> c = CHR 0xA3) financial_amount_regex"
  by (simp add: financial_amount_regex_def syntax_eval)
lemma openai_or_stripe_key_needs: "needs (\<lambda>c. c = CHR ''k'') openai_or_stripe_key_regex"
  by (simp add: openai_or_stripe_key_regex_def syntax_eval)
lemma aws_access_key_needs: "needs (\<lambda>c. c = CHR ''K'') aws_access_key_regex"
  by (simp add: aws_access_key_regex_def syntax_eval)
lemma jwt_needs: "needs (\<lambda>c. c = CHR ''.'') jwt_regex"
  by (simp add: jwt_regex_def syntax_eval)
lemma generic_secret_assignment_needs:
  "needs (\<lambda>c. c = CHR '':'' \<or> c = CHR ''='') generic_secret_assignment_regex"
  by (simp add: generic_secret_assignment_regex_def syntax_eval)
lemma bank_account_needs: "needs (\<lambda>c. c = CHR '':'' \<or> c = CHR ''='') bank_account_regex"
  by (simp add: bank_account_regex_def syntax_eval)
lemma project_code_needs: "needs (\<lambda>c. c = CHR '':'' \<or> c = CHR ''='') project_code_regex"
  by (simp add: project_code_regex_def syntax_eval)
lemma unresolved_assignment_needs:
  "needs (\<lambda>c. c = CHR '':'' \<or> c = CHR ''='') unresolved_assignment_regex"
  by (simp add: unresolved_assignment_regex_def syntax_eval)

lemma replaceAll_guard:
  "needs q r \<Longrightarrow> replaceAll r f s = (if list_ex q s then replaceFrom r f None s else (s, []))"
  using replaceFrom_needs[of q r s f None] by (auto simp: replaceAll_def list_ex_iff)

lemma regexTest_guard:
  "needs q r \<Longrightarrow> regexTest r s = (if list_ex q s then testFrom r None s else False)"
  using testFrom_needs[of q r s None] by (auto simp: regexTest_def list_ex_iff)

lemmas guards =
  replaceAll_guard[OF email_needs] replaceAll_guard[OF phone_needs]
  replaceAll_guard[OF ssn_needs] replaceAll_guard[OF credit_card_needs]
  replaceAll_guard[OF financial_amount_needs] replaceAll_guard[OF openai_or_stripe_key_needs]
  replaceAll_guard[OF aws_access_key_needs] replaceAll_guard[OF jwt_needs]
  replaceAll_guard[OF generic_secret_assignment_needs] replaceAll_guard[OF bank_account_needs]
  replaceAll_guard[OF project_code_needs]
  regexTest_guard[OF ssn_needs] regexTest_guard[OF credit_card_needs]
  regexTest_guard[OF aws_access_key_needs] regexTest_guard[OF unresolved_assignment_needs]

lemma unfold_under_rmatch: "r = r' \<Longrightarrow> rmatch r st = rmatch r' st"
  by simp

lemma unfold_under_groupCount: "r = r' \<Longrightarrow> groupCount r = groupCount r'"
  by simp

lemmas pattern_unfold =
  email_regex_def[THEN unfold_under_rmatch] phone_regex_def[THEN unfold_under_rmatch]
  ssn_regex_def[THEN unfold_under_rmatch] credit_card_regex_def[THEN unfold_under_rmatch]
  financial_amount_regex_def[THEN unfold_under_rmatch]
  openai_or_stripe_key_regex_def[THEN unfold_under_rmatch]
  aws_access_key_regex_def[THEN unfold_under_rmatch] jwt_regex_def[THEN unfold_under_rmatch]
  generic_secret_assignment_regex_def[THEN unfold_under_rmatch]
  bank_account_regex_def[THEN unfold_under_rmatch] project_code_regex_def[THEN unfold_under_rmatch]
  unresolved_assignment_regex_def[THEN unfold_under_rmatch]
  email_regex_def[THEN unfold_under_groupCount] phone_regex_def[THEN unfold_under_groupCount]
  ssn_regex_def[THEN unfold_under_groupCount] credit_card_regex_def[THEN unfold_under_groupCount]
  financial_amount_regex_def[THEN unfold_under_groupCount]
  openai_or_stripe_key_regex_def[THEN unfold_under_groupCount]
  aws_access_key_regex_def[THEN unfold_under_groupCount] jwt_regex_def[THEN unfold_under_groupCount]
  generic_secret_assignment_regex_def[THEN unfold_under_groupCount]
  bank_account_regex_def[THEN unfold_under_groupCount]
  project_code_regex_def[THEN unfold_under_groupCount]

lemmas pipeline_eval = guards pattern_unfold syntax_eval char_eval rmatch.simps replaceFrom.simps
  matchAt_def captureArray_def wordBefore_def wordAhead_def shorter_def
  PATTERNS_def unresolvedSensitivePatterns_def computeConfidence_def computeRisk_def
  runPrivacyPipeline_def applyPattern_def recordCall_def replacementFor_def sensitiveValueOf_def
  resolveSecretToken_def nthOr_def trim_def toLowerCase_def


section \<open>Properties of trimming and whitespace collapsing\<close>

lemma trim_blank: "\<forall>c\<in>set s. isSpace c \<Longrightarrow> trim s = []"
proof -
  assume a: "\<forall>c\<in>set s. isSpace c"
  then have "dropWhile isSpace s = []" by (induction s) auto
  then show ?thesis by (simp add: trim_def del: dropWhile_eq_Nil_conv)
qed

lemma dropWhile_blank: "\<forall>c\<in>set s. isSpace c \<Longrightarrow> dropWhile isSpace s = []"
  by (induction s) auto

lemma collapseSpaces_blank:
  "\<forall>c\<in>set sp. isSpace c \<Longrightarrow> collapseSpaces sp = (if sp = [] then [] else '' '')"
proof (cases sp)
  case Nil
  then show ?thesis by simp
next
  case (Cons c cs)
  assume a: "\<forall>c\<in>set sp. isSpace c"
  with Cons have "\<forall>c\<in>set cs. isSpace c" by simp
  then have "collapseSpaces (dropWhile isSpace cs) = []" by (simp add: dropWhile_blank)
  with a Cons show ?thesis by simp
qed

lemma dropWhile_collapse:
  "dropWhile isSpace (collapseSpaces (dropWhile isSpace y)) = dropWhile isSpace (collapseSpaces y)"
proof (cases y)
  case Nil
  then show ?thesis by simp
next
  case (Cons c cs)
  show ?thesis
  proof (cases "isSpace c")
    case True
    have sp: "isSpace CHR '' ''" by (simp add: isSpace_bits)
    from True Cons sp show ?thesis by simp
  next
    case False
    with Cons show ?thesis by simp
  qed
qed

lemma collapseSpaces_append_blank:
  "\<forall>c\<in>set sp. isSpace c \<Longrightarrow>
   \<exists>e. (\<forall>c\<in>set e. isSpace c) \<and> collapseSpaces (a @ sp) = collapseSpaces a @ e"
proof (induction a rule: collapseSpaces.induct)
  case 1
  have sp: "isSpace CHR '' ''" by (simp add: isSpace_bits)
  show ?case using collapseSpaces_blank[OF 1] sp by (cases sp) auto
next
  case (2 c cs)
  show ?case
  proof (cases "isSpace c")
    case True
    show ?thesis
    proof (cases "\<forall>x\<in>set cs. isSpace x")
      case all: True
      then have d1: "collapseSpaces (dropWhile isSpace cs) = []" by (simp add: dropWhile_blank)
      from all 2(3) have "\<forall>x\<in>set (cs @ sp). isSpace x" by auto
      then have d2: "collapseSpaces (dropWhile isSpace (cs @ sp)) = []"
        by (simp only: dropWhile_blank collapseSpaces.simps)
      have "collapseSpaces ((c # cs) @ sp) = collapseSpaces (c # cs) @ []"
        using True d1 d2 by simp
      moreover have "\<forall>a\<in>set ([]::string). isSpace a" by simp
      ultimately show ?thesis by (intro exI[of _ "[]"] conjI)
    next
      case nall: False
      then have "dropWhile isSpace (cs @ sp) = dropWhile isSpace cs @ sp"
        by (induction cs) auto
      with True 2(1)[OF True 2(3)] show ?thesis by auto
    qed
  next
    case False
    with 2(2)[OF False 2(3)] show ?thesis by auto
  qed
qed

lemma trim_append_blank:
  assumes "\<forall>c\<in>set e. isSpace c"
  shows "trim (z @ e) = trim z"
proof (cases "\<forall>x\<in>set z. isSpace x")
  case True
  with assms have "\<forall>x\<in>set (z @ e). isSpace x" by auto
  then have "trim (z @ e) = []" by (rule trim_blank)
  moreover from True have "trim z = []" by (rule trim_blank)
  ultimately show ?thesis by simp
next
  case False
  then have d: "dropWhile isSpace (z @ e) = dropWhile isSpace z @ e"
    by (induction z) auto
  have "dropWhile isSpace (rev e @ rev (dropWhile isSpace z)) = dropWhile isSpace (rev (dropWhile isSpace z))"
    using assms by (simp add: dropWhile_append)
  then show ?thesis by (simp add: trim_def d)
qed

lemma strip_trailing_decomp:
  "\<exists>sp. (\<forall>c\<in>set sp. isSpace c) \<and> y = rev (dropWhile isSpace (rev y)) @ sp"
proof -
  have "rev y = takeWhile isSpace (rev y) @ dropWhile isSpace (rev y)" by simp
  then have "y = rev (dropWhile isSpace (rev y)) @ rev (takeWhile isSpace (rev y))"
    by (metis rev_append rev_rev_ident)
  moreover have "\<forall>c\<in>set (rev (takeWhile isSpace (rev y))). isSpace c"
    by (auto dest: set_takeWhileD)
  ultimately show ?thesis by blast
qed

lemma trim_collapse_strip_trailing:
  "trim (collapseSpaces (rev (dropWhile isSpace (rev y)))) = trim (collapseSpaces y)"
proof -
  obtain sp where sp: "\<forall>c\<in>set sp. isSpace c" and y: "y = rev (dropWhile isSpace (rev y)) @ sp"
    using strip_trailing_decomp by blast
  obtain e where e: "\<forall>c\<in>set e. isSpace c"
    and c: "collapseSpaces (rev (dropWhile isSpace (rev y)) @ sp)
            = collapseSpaces (rev (dropWhile isSpace (rev y))) @ e"
    using collapseSpaces_append_blank[OF sp] by blast
  have "trim (collapseSpaces y) = trim (collapseSpaces (rev (dropWhile isSpace (rev y)) @ sp))"
    using y by simp
  also have "\<dots> = trim (collapseSpaces (rev (dropWhile isSpace (rev y))))"
    by (simp only: c trim_append_blank[OF e])
  finally show ?thesis by simp
qed

lemma trim_collapse_strip_leading:
  "trim (collapseSpaces (dropWhile isSpace y)) = trim (collapseSpaces y)"
  using dropWhile_collapse[of y] by (simp add: trim_def)

lemma trim_collapse_trim: "trim (collapseSpaces (trim y)) = trim (collapseSpaces y)"
proof -
  have "trim (collapseSpaces (trim y))
        = trim (collapseSpaces (rev (dropWhile isSpace (rev (dropWhile isSpace y)))))"
    by (simp add: trim_def)
  also have "\<dots> = trim (collapseSpaces (dropWhile isSpace y))"
    by (rule trim_collapse_strip_trailing)
  also have "\<dots> = trim (collapseSpaces y)"
    by (rule trim_collapse_strip_leading)
  finally show ?thesis .
qed

lemma normalizeLine_trim: "normalizeLine (trim y) = normalizeLine y"
  by (simp add: normalizeLine_def trim_collapse_trim)

lemma length_collapseSpaces: "length (collapseSpaces s) \<le> length s"
proof (induction s rule: collapseSpaces.induct)
  case 1
  then show ?case by simp
next
  case (2 c cs)
  have "length (dropWhile isSpace cs) \<le> length cs" by (rule length_dropWhile_le)
  with 2 show ?case by (cases "isSpace c") auto
qed

lemma dropWhile_same_length: "length (dropWhile P s) = length s \<Longrightarrow> dropWhile P s = s"
proof (cases s)
  case Nil
  then show ?thesis by simp
next
  case (Cons c cs)
  assume l: "length (dropWhile P s) = length s"
  show ?thesis
  proof (cases "P c")
    case True
    have "length (dropWhile P cs) \<le> length cs" by (rule length_dropWhile_le)
    with True Cons l show ?thesis by simp
  next
    case False
    with Cons show ?thesis by simp
  qed
qed

lemma collapseSpaces_head:
  "s = [] \<or> \<not> isSpace (hd s) \<Longrightarrow> dropWhile isSpace (collapseSpaces s) = collapseSpaces s"
  by (cases s) auto

lemma collapseSpaces_idem: "collapseSpaces (collapseSpaces s) = collapseSpaces s"
proof (induction s rule: collapseSpaces.induct)
  case 1
  then show ?case by simp
next
  case (2 c cs)
  show ?case
  proof (cases "isSpace c")
    case True
    have sp: "isSpace CHR '' ''" by (simp add: isSpace_bits)
    have h: "dropWhile isSpace cs = [] \<or> \<not> isSpace (hd (dropWhile isSpace cs))"
      using hd_dropWhile[of isSpace cs] by blast
    have "dropWhile isSpace (collapseSpaces (dropWhile isSpace cs)) = collapseSpaces (dropWhile isSpace cs)"
      using collapseSpaces_head[OF h] .
    with True sp 2(1)[OF True] show ?thesis by simp
  next
    case False
    with 2(2)[OF False] show ?thesis by simp
  qed
qed


lemma collapse_fixed_tail:
  assumes "collapseSpaces (c # s) = c # s"
  shows "collapseSpaces s = s"
proof (cases "isSpace c")
  case True
  with assms have e: "collapseSpaces (dropWhile isSpace s) = s" by simp
  have "length s = length (collapseSpaces (dropWhile isSpace s))" using e by simp
  also have "\<dots> \<le> length (dropWhile isSpace s)" by (rule length_collapseSpaces)
  finally have "length (dropWhile isSpace s) = length s"
    using length_dropWhile_le[of isSpace s] by simp
  then have "dropWhile isSpace s = s" by (rule dropWhile_same_length)
  with e show ?thesis by simp
next
  case False
  with assms show ?thesis by simp
qed

lemma collapse_fixed_head:
  assumes "collapseSpaces (c # s) = c # s" "isSpace c"
  shows "c = CHR '' '' \<and> dropWhile isSpace s = s"
proof -
  from assms have e: "collapseSpaces (dropWhile isSpace s) = s" and c: "c = CHR '' ''" by simp_all
  have "length s = length (collapseSpaces (dropWhile isSpace s))" using e by simp
  also have "\<dots> \<le> length (dropWhile isSpace s)" by (rule length_collapseSpaces)
  finally have "length (dropWhile isSpace s) = length s"
    using length_dropWhile_le[of isSpace s] by simp
  then have "dropWhile isSpace s = s" by (rule dropWhile_same_length)
  with c show ?thesis by simp
qed

lemma collapse_fixed_prefix:
  "collapseSpaces (s @ t) = s @ t \<Longrightarrow> collapseSpaces s = s"
proof (induction s)
  case Nil
  then show ?case by simp
next
  case (Cons c s)
  from Cons(2) have fx: "collapseSpaces (c # (s @ t)) = c # (s @ t)" by simp
  from collapse_fixed_tail[OF fx] have "collapseSpaces (s @ t) = s @ t" .
  from Cons(1)[OF this] have ih: "collapseSpaces s = s" .
  show ?case
  proof (cases "isSpace c")
    case True
    from collapse_fixed_head[OF fx True] have c: "c = CHR '' ''"
      and d: "dropWhile isSpace (s @ t) = s @ t" by simp_all
    have "dropWhile isSpace s = s"
    proof (cases s)
      case Nil
      then show ?thesis by simp
    next
      case (Cons a as)
      with d have "\<not> isSpace a"
        using dropWhile_eq_self_iff[of isSpace "s @ t"] by simp
      with Cons show ?thesis by simp
    qed
    with True c ih show ?thesis by simp
  next
    case False
    with ih show ?thesis by simp
  qed
qed

lemma collapse_fixed_dropWhile:
  "collapseSpaces w = w \<Longrightarrow> collapseSpaces (dropWhile P w) = dropWhile P w"
proof (induction w)
  case Nil
  then show ?case by simp
next
  case (Cons c w)
  from collapse_fixed_tail[OF Cons(2)] have "collapseSpaces w = w" .
  from Cons(1)[OF this] Cons(2) show ?case by (cases "P c") simp_all
qed

lemma collapse_fixed_trim:
  assumes "collapseSpaces w = w"
  shows "collapseSpaces (trim w) = trim w"
proof -
  let ?u = "dropWhile isSpace w"
  have u: "collapseSpaces ?u = ?u" using assms by (rule collapse_fixed_dropWhile)
  obtain sp where "?u = rev (dropWhile isSpace (rev ?u)) @ sp"
    using strip_trailing_decomp[of ?u] by blast
  then have "collapseSpaces (rev (dropWhile isSpace (rev ?u)) @ sp) = rev (dropWhile isSpace (rev ?u)) @ sp"
    using u by simp
  then have "collapseSpaces (rev (dropWhile isSpace (rev ?u))) = rev (dropWhile isSpace (rev ?u))"
    by (rule collapse_fixed_prefix)
  then show ?thesis by (simp add: trim_def)
qed

lemma strip_trailing_head:
  assumes "u = [] \<or> \<not> isSpace (hd u)"
  shows "dropWhile isSpace (rev (dropWhile isSpace (rev u))) = rev (dropWhile isSpace (rev u))"
proof (cases u)
  case Nil
  then show ?thesis by simp
next
  case (Cons a as)
  with assms have na: "\<not> isSpace a" by simp
  have "dropWhile isSpace (rev as @ [a]) = dropWhile isSpace (rev as) @ [a]"
    using na by (rule dropWhile_append3)
  with Cons na show ?thesis by simp
qed

lemma trim_idem: "trim (trim w) = trim w"
proof -
  let ?u = "dropWhile isSpace w"
  have h: "?u = [] \<or> \<not> isSpace (hd ?u)" using hd_dropWhile[of isSpace w] by blast
  have "dropWhile isSpace (trim w) = trim w"
    using strip_trailing_head[OF h] by (simp add: trim_def)
  then show ?thesis by (simp add: trim_def)
qed

lemma set_trim: "set (trim s) \<subseteq> set s"
proof -
  have "set (dropWhile isSpace (rev (dropWhile isSpace s))) \<subseteq> set (rev (dropWhile isSpace s))"
    by (auto dest: set_dropWhileD)
  also have "\<dots> \<subseteq> set s" by (auto dest: set_dropWhileD)
  finally show ?thesis by (simp add: trim_def)
qed

lemma set_collapseSpaces:
  "c \<in> set (collapseSpaces s) \<Longrightarrow> c = CHR '' '' \<or> (c \<in> set s \<and> \<not> isSpace c)"
proof (induction s rule: collapseSpaces.induct)
  case 1
  then show ?case by simp
next
  case (2 d ds)
  show ?case
  proof (cases "isSpace d")
    case True
    with 2(3) have "c = CHR '' '' \<or> c \<in> set (collapseSpaces (dropWhile isSpace ds))" by simp
    with 2(1)[OF True] show ?thesis by (auto dest: set_dropWhileD)
  next
    case False
    with 2(3) have "c = d \<or> c \<in> set (collapseSpaces ds)" by simp
    with 2(2)[OF False] False show ?thesis by auto
  qed
qed

lemma lowerChar_fixed: "isLower c \<or> isDigit c \<or> c = CHR '' '' \<Longrightarrow> lowerChar c = c"
  by (cases c) (auto simp: char_eval)

lemma lexical_chars:
  assumes "c \<in> set (normalizeLexicalText x)"
  shows "isLower c \<or> isDigit c \<or> c = CHR '' ''"
proof -
  from assms set_trim have "c \<in> set (collapseSpaces (blankNonAlnum (toLowerCase x)))"
    by (auto simp: normalizeLexicalText_def)
  from set_collapseSpaces[OF this] show ?thesis
    by (auto simp: blankNonAlnum_def split: if_splits)
qed

lemma normalizeLexicalText_idem:
  "normalizeLexicalText (normalizeLexicalText x) = normalizeLexicalText x"
proof -
  let ?y = "normalizeLexicalText x"
  have sp: "isSpace CHR '' ''" by (simp add: isSpace_bits)
  have l: "toLowerCase ?y = ?y"
    unfolding toLowerCase_def using lexical_chars[of _ x] lowerChar_fixed
    by (intro map_idI) blast
  have b: "blankNonAlnum ?y = ?y"
    unfolding blankNonAlnum_def using lexical_chars[of _ x] sp
    by (intro map_idI) auto
  have "collapseSpaces (collapseSpaces (blankNonAlnum (toLowerCase x)))
        = collapseSpaces (blankNonAlnum (toLowerCase x))" by (rule collapseSpaces_idem)
  then have c: "collapseSpaces ?y = ?y"
    unfolding normalizeLexicalText_def by (rule collapse_fixed_trim)
  have t: "trim ?y = ?y" unfolding normalizeLexicalText_def by (rule trim_idem)
  show ?thesis
    by (simp add: normalizeLexicalText_def[of ?y] l b c t)
qed

lemma tokenizeQuery_normalized: "tokenizeQuery (normalizeLexicalText x) = tokenizeQuery x"
  by (simp add: tokenizeQuery_def normalizeLexicalText_idem)

lemma startsWith_prefix: "startsWith s t = prefix t s"
  by (induction s t rule: startsWith.induct) auto

section \<open>Properties of the redaction pipeline\<close>

lemma replaceFrom_no_calls:
  "snd (replaceFrom r f pv rest) = [] \<Longrightarrow> fst (replaceFrom r f pv rest) = rest"
proof (induction rest arbitrary: pv)
  case Nil
  then show ?case
    by (cases "matchAt r pv []")
       (auto simp: replaceFrom.simps[of r f pv "[]"] Let_def split: prod.splits if_splits)
next
  case (Cons c cs)
  show ?case
  proof (cases "matchAt r pv (c # cs)")
    case None
    with Cons(2) have "snd (replaceFrom r f (Some c) cs) = []"
      by (simp add: replaceFrom.simps[of r f pv "c # cs"] split: prod.splits)
    from Cons(1)[OF this] None show ?thesis
      by (auto simp: replaceFrom.simps[of r f pv "c # cs"] split: prod.splits)
  next
    case (Some st)
    with Cons(2) show ?thesis
      by (cases st) (auto simp: replaceFrom.simps[of r f pv "c # cs"] Let_def split: prod.splits if_splits)
  qed
qed

lemma foldl_recordCall_count:
  "fst (foldl (\<lambda>a call. recordCall P call a) (n, h, m) calls) = n + length calls"
proof (induction calls arbitrary: n h m)
  case Nil
  then show ?case by simp
next
  case (Cons call calls)
  obtain mt cp where c: "call = (mt, cp)" by (cases call)
  show ?case using Cons[of "n + 1"] by (simp add: recordCall_def c)
qed

lemma applyPattern_count:
  assumes "applyPattern (t, n, h, m) P = (t', n', h', m')"
  shows "n \<le> n' \<and> (n' = n \<longrightarrow> t' = t \<and> h' = h \<and> m' = m)"
proof -
  obtain out calls where rc: "replaceAll (regex P) (replacementFor P) t = (out, calls)"
    by (cases "replaceAll (regex P) (replacementFor P) t")
  from assms rc have t': "t' = out"
    and acc: "(n', h', m') = foldl (\<lambda>a call. recordCall P call a) (n, h, m) calls"
    by (simp_all add: applyPattern_def)
  from acc have n': "n' = n + length calls"
    using foldl_recordCall_count[of P n h m calls] by (metis fst_conv)
  show ?thesis
  proof (cases calls)
    case Nil
    with rc have "out = t"
      using replaceFrom_no_calls[of "regex P" "replacementFor P" None t]
      by (simp add: replaceAll_def)
    with Nil acc t' show ?thesis by simp
  next
    case (Cons c cs)
    with n' show ?thesis by simp
  qed
qed

lemma foldl_applyPattern_count:
  "foldl applyPattern (t, n, h, m) ps = (t', n', h', m') \<Longrightarrow>
   n \<le> n' \<and> (n' = n \<longrightarrow> t' = t \<and> h' = h \<and> m' = m)"
proof (induction ps arbitrary: t n h m)
  case Nil
  then show ?case by simp
next
  case (Cons P ps)
  obtain t1 n1 h1 m1 where s1: "applyPattern (t, n, h, m) P = (t1, n1, h1, m1)"
    by (cases "applyPattern (t, n, h, m) P") auto
  from Cons(2) s1 have "foldl applyPattern (t1, n1, h1, m1) ps = (t', n', h', m')" by simp
  from Cons(1)[OF this] applyPattern_count[OF s1] show ?case by auto
qed

lemma runPrivacyPipeline_unredacted:
  assumes "redactionCount (runPrivacyPipeline t) = 0"
  shows "cleanedText (runPrivacyPipeline t) = t"
proof -
  obtain t' n' h' m' where f: "foldl applyPattern (t, 0, 0, Map.empty) PATTERNS = (t', n', h', m')"
    by (cases "foldl applyPattern (t, 0, 0, Map.empty) PATTERNS") auto
  from assms f have "n' = 0" by (simp add: runPrivacyPipeline_def)
  with foldl_applyPattern_count[OF f] have "t' = t" by simp
  with f show ?thesis by (simp add: runPrivacyPipeline_def)
qed

lemma pipeline_line_a:
  "runPrivacyPipeline ''[1] a'' =
     \<lparr>cleanedText = ''[1] a'', redactionCount = 0, riskLevel = LOW, confidence = HIGH,
      syntheticMap = Map.empty\<rparr>"
  by (simp add: pipeline_eval)

lemma pipeline_dollars:
  "runPrivacyPipeline ''$1$2'' =
     \<lparr>cleanedText = ''[REDACTED_FINANCIAL_AMOUNT]$2'', redactionCount = 1, riskLevel = LOW,
      confidence = HIGH, syntheticMap = [''$1'' \<mapsto> ''[REDACTED_FINANCIAL_AMOUNT]'']\<rparr>"
  by (simp add: pipeline_eval)

lemma pipeline_dollars_again:
  "runPrivacyPipeline ''[REDACTED_FINANCIAL_AMOUNT]$2'' =
     \<lparr>cleanedText = ''[REDACTED_FINANCIAL_AMOUNT][REDACTED_FINANCIAL_AMOUNT]'',
      redactionCount = 1, riskLevel = LOW,
      confidence = HIGH, syntheticMap = [''$2'' \<mapsto> ''[REDACTED_FINANCIAL_AMOUNT]'']\<rparr>"
  by (simp add: pipeline_eval)

lemma suffix_between:
  assumes "suffix z (m @ ys)" and "length ys \<le> length z"
  shows "\<exists>m1. z = m1 @ ys \<and> suffix m1 m"
proof -
  from assms(1) obtain u where u: "m @ ys = u @ z" by (auto simp: suffix_def)
  from assms(2) u obtain v where "z = v @ ys"
    by (metis append_eq_append_conv_if append_take_drop_id length_append add_diff_cancel_right'
          diff_is_0_eq drop_all append_Nil length_drop add.commute)
  with u show ?thesis by (auto simp: suffix_def)
qed

lemma wordAhead_append: "m \<noteq> [] \<Longrightarrow> wordAhead (m @ ys) = wordAhead m"
  by (cases m) (simp_all add: wordAhead_def)

lemma wordAhead_swap:
  "wordAhead ys = wordAhead ys2 \<Longrightarrow> wordAhead (m @ ys) = wordAhead (m @ ys2)"
  by (cases m) (simp_all add: wordAhead_def)

lemma rmatch_local:
  "st' \<in> set (rmatch r st) \<Longrightarrow> restOf st = m @ ys \<Longrightarrow> restOf st' = m' @ ys \<Longrightarrow>
   wordAhead ys = wordAhead ys2 \<Longrightarrow>
   (fst st', m' @ ys2, snd (snd st')) \<in> set (rmatch r (fst st, m @ ys2, snd (snd st)))"
proof (induction r st arbitrary: st' m m' rule: rmatch.induct)
  case (1 st)
  then show ?case by (cases st) (auto simp: rmatch.simps)
next
  case (2 p pv rest caps)
  then show ?case
    by (cases rest) (auto simp: rmatch.simps split: if_splits)
next
  case (3 a b st)
  from 3(3) obtain mid where mid: "mid \<in> set (rmatch a st)" and s: "st' \<in> set (rmatch b mid)"
    by (auto simp: rmatch.simps)
  have "suffix (restOf mid) (m @ ys)" using rmatch_suffix[OF mid] 3(4) by simp
  moreover have "suffix (m' @ ys) (restOf mid)" using rmatch_suffix[OF s] 3(5) by simp
  then have "length ys \<le> length (restOf mid)"
    by (auto simp: suffix_def)
  ultimately obtain m1 where m1: "restOf mid = m1 @ ys" using suffix_between by blast
  from 3(1)[OF mid 3(4) m1 3(6)]
  have a: "(fst mid, m1 @ ys2, snd (snd mid)) \<in> set (rmatch a (fst st, m @ ys2, snd (snd st)))" .
  from 3(2)[OF mid s m1 3(5) 3(6)]
  have b: "(fst st', m' @ ys2, snd (snd st')) \<in> set (rmatch b (fst mid, m1 @ ys2, snd (snd mid)))" .
  from a b show ?case by (auto simp: rmatch.simps)
next
  case (4 a b st)
  from 4(3) have "st' \<in> set (rmatch a st) \<or> st' \<in> set (rmatch b st)"
    by (simp add: rmatch.simps)
  then show ?case
    using 4(1)[OF _ 4(4) 4(5) 4(6)] 4(2)[OF _ 4(4) 4(5) 4(6)]
    by (auto simp: rmatch.simps)
next
  case (5 a pv rest caps)
  from 5(3) have "st' = (pv, rest, caps) \<or>
      (\<exists>mid. mid \<in> set (rmatch a (pv, rest, caps)) \<and> shorter rest mid \<and> st' \<in> set (rmatch (Star a) mid))"
    unfolding rmatch.simps(5)[of a pv rest caps] by auto
  then show ?case
  proof
    assume e: "st' = (pv, rest, caps)"
    with 5(4,5) have "m' = m" by simp
    with e show ?thesis
      by (simp add: rmatch.simps(5)[of a pv "m @ ys2" caps])
  next
    assume "\<exists>mid. mid \<in> set (rmatch a (pv, rest, caps)) \<and> shorter rest mid \<and> st' \<in> set (rmatch (Star a) mid)"
    then obtain mid where mid: "mid \<in> set (rmatch a (pv, rest, caps))" and sh: "shorter rest mid"
      and s: "st' \<in> set (rmatch (Star a) mid)" by blast
    have mf: "mid \<in> set (filter (shorter rest) (rmatch a (pv, rest, caps)))" using mid sh by simp
    have "suffix (restOf mid) (m @ ys)" using rmatch_suffix[OF mid] 5(4) by simp
    moreover have "suffix (m' @ ys) (restOf mid)" using rmatch_suffix[OF s] 5(5) by simp
    then have "length ys \<le> length (restOf mid)"
      by (auto simp: suffix_def)
    ultimately obtain m1 where m1: "restOf mid = m1 @ ys" using suffix_between by blast
    from 5(1)[OF mid 5(4) m1 5(6)]
    have a: "(fst mid, m1 @ ys2, snd (snd mid)) \<in> set (rmatch a (pv, m @ ys2, caps))" by simp
    from sh m1 5(4) have sh': "shorter (m @ ys2) (fst mid, m1 @ ys2, snd (snd mid))"
      by (simp add: shorter_def restOf_def)
    from 5(2)[OF mf s m1 5(5) 5(6)]
    have b: "(fst st', m' @ ys2, snd (snd st')) \<in> set (rmatch (Star a) (fst mid, m1 @ ys2, snd (snd mid)))" .
    from a sh' b show ?thesis
      by (auto simp: rmatch.simps(5)[of a pv "m @ ys2" caps])
  qed
next
  case (6 a pv rest caps)
  from 6(3) have "st' = (pv, rest, caps) \<or>
      (\<exists>mid. mid \<in> set (rmatch a (pv, rest, caps)) \<and> shorter rest mid \<and> st' \<in> set (rmatch (Lazy a) mid))"
    unfolding rmatch.simps(6)[of a pv rest caps] by auto
  then show ?case
  proof
    assume e: "st' = (pv, rest, caps)"
    with 6(4,5) have "m' = m" by simp
    with e show ?thesis
      by (simp add: rmatch.simps(6)[of a pv "m @ ys2" caps])
  next
    assume "\<exists>mid. mid \<in> set (rmatch a (pv, rest, caps)) \<and> shorter rest mid \<and> st' \<in> set (rmatch (Lazy a) mid)"
    then obtain mid where mid: "mid \<in> set (rmatch a (pv, rest, caps))" and sh: "shorter rest mid"
      and s: "st' \<in> set (rmatch (Lazy a) mid)" by blast
    have mf: "mid \<in> set (filter (shorter rest) (rmatch a (pv, rest, caps)))" using mid sh by simp
    have "suffix (restOf mid) (m @ ys)" using rmatch_suffix[OF mid] 6(4) by simp
    moreover have "suffix (m' @ ys) (restOf mid)" using rmatch_suffix[OF s] 6(5) by simp
    then have "length ys \<le> length (restOf mid)"
      by (auto simp: suffix_def)
    ultimately obtain m1 where m1: "restOf mid = m1 @ ys" using suffix_between by blast
    from 6(1)[OF mid 6(4) m1 6(6)]
    have a: "(fst mid, m1 @ ys2, snd (snd mid)) \<in> set (rmatch a (pv, m @ ys2, caps))" by simp
    from sh m1 6(4) have sh': "shorter (m @ ys2) (fst mid, m1 @ ys2, snd (snd mid))"
      by (simp add: shorter_def restOf_def)
    from 6(2)[OF mf s m1 6(5) 6(6)]
    have b: "(fst st', m' @ ys2, snd (snd st')) \<in> set (rmatch (Lazy a) (fst mid, m1 @ ys2, snd (snd mid)))" .
    from a sh' b show ?thesis
      by (auto simp: rmatch.simps(6)[of a pv "m @ ys2" caps])
  qed
next
  case (7 n a pv rest caps)
  from 7(2) obtain pv' rest' caps' where
      inner: "(pv', rest', caps') \<in> set (rmatch a (pv, rest, caps))"
      and st': "st' = (pv', rest', (n, take (length rest - length rest') rest) # caps')"
    unfolding rmatch.simps(7)[of n a pv rest caps] by auto
  from st' 7(4) have r': "rest' = m' @ ys" by simp
  from 7(3) have r: "rest = m @ ys" by simp
  from 7(1)[OF inner 7(3) _ 7(5), of m'] r'
  have a: "(pv', m' @ ys2, caps') \<in> set (rmatch a (pv, m @ ys2, caps))" by simp
  have "suffix (m' @ ys) (m @ ys)" using rmatch_suffix[OF inner] r r' by simp
  then have len: "length m' \<le> length m" by (auto simp: suffix_def)
  have t: "take (length (m @ ys2) - length (m' @ ys2)) (m @ ys2)
         = take (length rest - length rest') rest"
    using len by (simp add: r r')
  from a t st' show ?case
    by (force simp: rmatch.simps(7)[of n a pv "m @ ys2" caps])
next
  case (8 pv rest caps)
  from 8 have e: "st' = (pv, rest, caps)" and w: "wordBefore pv \<noteq> wordAhead rest"
    by (auto simp: rmatch.simps split: if_splits)
  with 8(2,3) have mm: "m' = m" by simp
  from 8(2) w wordAhead_swap[OF 8(4), of m] have "wordBefore pv \<noteq> wordAhead (m @ ys2)" by simp
  with e mm show ?case by (simp add: rmatch.simps)
next
  case (9 pv rest caps)
  from 9 have e: "st' = (pv, rest, caps)" and w: "\<not> wordBefore pv"
    by (auto simp: rmatch.simps split: if_splits)
  with 9(2,3) have mm: "m' = m" by simp
  with e w show ?case by (simp add: rmatch.simps)
qed

lemma lastChar_charBefore: "lastChar ms = charBefore None ms"
  by (simp add: lastChar_def charBefore_def)

lemma put_Nil [simp]: "put s = [] \<longleftrightarrow> s = []"
  by (simp add: put_def)

lemma put_marked: "x \<in> set (put s) \<Longrightarrow> snd x"
  by (auto simp: put_def)

lemma hd_put: "s \<noteq> [] \<Longrightarrow> snd (hd (put s @ ys))"
  by (cases s) (simp_all add: put_def)

lemma plain_simps [simp]: "plain [] = []" "plain (x # xs) = fst x # plain xs"
  "plain (xs @ ys) = plain xs @ plain ys" "length (plain xs) = length xs"
  by (simp_all add: plain_def)

lemma replaceFromM_None:
  "matchAt r pv (plain rest) = None \<Longrightarrow>
   replaceFromM r f pv rest =
     (case rest of [] \<Rightarrow> [] | x # xs \<Rightarrow> x # replaceFromM r f (Some (fst x)) xs)"
  by (subst replaceFromM.simps) simp

lemma replaceFromM_Some:
  "matchAt r pv (plain rest) = Some (pv', rest', caps) \<Longrightarrow>
   replaceFromM r f pv rest =
     (if length rest' < length rest
      then put (f (take (length rest - length rest') (plain rest)) (captureArray r caps))
             @ replaceFromM r f pv' (drop (length rest - length rest') rest)
      else (case rest of
              [] \<Rightarrow> put (f (take (length rest - length rest') (plain rest)) (captureArray r caps))
            | x # xs \<Rightarrow>
                put (f (take (length rest - length rest') (plain rest)) (captureArray r caps))
                  @ x # replaceFromM r f (Some (fst x)) xs))"
  by (subst replaceFromM.simps) (simp add: Let_def)

lemma replaceFromM_head_unmarked:
  assumes ne: "\<And>m caps. f m caps \<noteq> []"
    and out: "replaceFromM r f pv rest = x # out"
    and x: "\<not> snd x"
  shows "matchAt r pv (plain rest) = None
         \<and> (\<exists>xs. rest = x # xs \<and> out = replaceFromM r f (Some (fst x)) xs)"
proof (cases "matchAt r pv (plain rest)")
  case None
  from out replaceFromM_None[OF None, of f] show ?thesis
    using None by (cases rest) auto
next
  case (Some st)
  obtain pv' rest' caps where st: "st = (pv', rest', caps)" by (cases st)
  let ?ins = "f (take (length rest - length rest') (plain rest)) (captureArray r caps)"
  have "\<exists>ys. replaceFromM r f pv rest = put ?ins @ ys"
    using replaceFromM_Some[OF Some[unfolded st], of f]
    by (cases rest) (auto split: if_splits)
  then obtain ys where "x # out = put ?ins @ ys" using out by auto
  then have "x = hd (put ?ins @ ys)" by (metis list.sel(1))
  with hd_put[OF ne, of _ _ ys] x show ?thesis by metis
qed

lemma replaceFromM_nil:
  assumes ne: "\<And>m caps. f m caps \<noteq> []"
    and out: "replaceFromM r f pv rest = []"
  shows "rest = [] \<and> matchAt r pv [] = None"
proof (cases "matchAt r pv (plain rest)")
  case None
  from out replaceFromM_None[OF None, of f] show ?thesis
    using None by (cases rest) auto
next
  case (Some st)
  obtain pv' rest' caps where st: "st = (pv', rest', caps)" by (cases st)
  let ?ins = "f (take (length rest - length rest') (plain rest)) (captureArray r caps)"
  have "\<exists>ys. replaceFromM r f pv rest = put ?ins @ ys"
    using replaceFromM_Some[OF Some[unfolded st], of f]
    by (cases rest) (auto split: if_splits)
  with out ne[of _ "captureArray r caps"] show ?thesis by simp
qed

lemma scan_prefix:
  assumes ne: "\<And>m caps. f m caps \<noteq> []"
  shows "replaceFromM r f pv rest = S @ B' \<Longrightarrow> \<not> list_ex snd S \<Longrightarrow>
         B' = [] \<or> \<not> snd (hd B') \<Longrightarrow>
         \<exists>B. rest = S @ B \<and> (B = [] \<longleftrightarrow> B' = []) \<and> (B' \<noteq> [] \<longrightarrow> hd B = hd B')
              \<and> matchAt r pv (plain rest) = None"
proof (induction S arbitrary: pv rest)
  case Nil
  show ?case
  proof (cases B')
    case Nil
    with Nil.prems(1) have "replaceFromM r f pv rest = []" by simp
    from replaceFromM_nil[OF ne this] Nil show ?thesis by simp
  next
    case (Cons b bs)
    with Nil.prems have out: "replaceFromM r f pv rest = b # bs" and b: "\<not> snd b" by simp_all
    from replaceFromM_head_unmarked[OF ne out b] Cons show ?thesis by auto
  qed
next
  case (Cons s S)
  from Cons.prems have out: "replaceFromM r f pv rest = s # (S @ B')" and s: "\<not> snd s"
    and S: "\<not> list_ex snd S" by simp_all
  from replaceFromM_head_unmarked[OF ne out s] obtain xs where
    n: "matchAt r pv (plain rest) = None" and rest: "rest = s # xs"
    and o2: "replaceFromM r f (Some (fst s)) xs = S @ B'" by auto
  from Cons.IH[OF o2 S Cons.prems(3)] obtain B where
    "xs = S @ B" "(B = [] \<longleftrightarrow> B' = [])" "(B' \<noteq> [] \<longrightarrow> hd B = hd B')" by blast
  with n rest show ?case by auto
qed

lemma split_after_put:
  assumes "ins @ rest = A' @ M' @ B'" and "ins \<noteq> []" and "\<forall>x\<in>set ins. snd x"
    and "\<not> touched A' M' B'"
  shows "\<exists>A''. A' = ins @ A'' \<and> A'' \<noteq> []"
proof -
  from assms(1) consider us where "ins = A' @ us" "us @ rest = M' @ B'"
    | us where "ins @ us = A'" "rest = us @ M' @ B'"
    by (auto simp: append_eq_append_conv2)
  then show ?thesis
  proof cases
    case 1
    have A: "A' = []"
    proof (rule ccontr)
      assume "A' \<noteq> []"
      then have "last A' \<in> set ins" using 1(1) by simp
      with assms(3,4) \<open>A' \<noteq> []\<close> show False by (auto simp: touched_def)
    qed
    with 1 assms(2) have e: "ins @ rest = M' @ B'" and "ins \<noteq> []" by simp_all
    then have h: "snd (hd (M' @ B'))" using assms(3)
      by (metis hd_append2 hd_in_set)
    have False
    proof (cases M')
      case Nil
      with h e assms(2) have "B' \<noteq> []" "snd (hd B')" by auto
      with assms(4) show False by (simp add: touched_def)
    next
      case (Cons m ms)
      with h have "snd m" by simp
      with Cons assms(4) show False by (simp add: touched_def)
    qed
    then show ?thesis ..
  next
    case 2
    have "us \<noteq> []"
    proof
      assume "us = []"
      with 2(1) have "A' = ins" by simp
      with assms(2,3) have "A' \<noteq> []" "snd (last A')" by auto
      with assms(4) show False by (simp add: touched_def)
    qed
    with 2(1) show ?thesis by auto
  qed
qed

lemma untouched_tail: "\<not> touched (a # A) M B \<Longrightarrow> \<not> touched A M B"
  by (auto simp: touched_def)

lemma untouched_drop: "\<not> touched (ins @ A) M B \<Longrightarrow> A \<noteq> [] \<Longrightarrow> \<not> touched A M B"
  by (auto simp: touched_def)

lemma scan_window:
  assumes ne: "\<And>m caps. f m caps \<noteq> []"
  shows "replaceFromM r f pv rest = A' @ M' @ B' \<Longrightarrow> \<not> touched A' M' B' \<Longrightarrow>
         \<exists>A B. rest = A @ M' @ B \<and> (A = [] \<longleftrightarrow> A' = []) \<and> (A' \<noteq> [] \<longrightarrow> last A = last A')
              \<and> (B = [] \<longleftrightarrow> B' = []) \<and> (B' \<noteq> [] \<longrightarrow> hd B = hd B')
              \<and> matchAt r (charBefore pv A) (plain (M' @ B)) = None"
proof (induction "length rest" arbitrary: pv rest A' rule: less_induct)
  case less
  note out = less.prems(1) and ut = less.prems(2)
  show ?case
  proof (cases "A' = []")
    case True
    with ut have M: "\<not> list_ex snd M'" and B: "B' = [] \<or> \<not> snd (hd B')"
      by (auto simp: touched_def)
    from out True have "replaceFromM r f pv rest = M' @ B'" by simp
    from scan_prefix[OF ne this M B] obtain B where
      "rest = M' @ B" "(B = [] \<longleftrightarrow> B' = [])" "(B' \<noteq> [] \<longrightarrow> hd B = hd B')"
      "matchAt r pv (plain rest) = None" by blast
    with True show ?thesis
      by (intro exI[of _ "[]"] exI[of _ B]) (simp add: charBefore_def)
  next
    case False
    then obtain a A'' where A': "A' = a # A''" by (cases A') auto
    show ?thesis
    proof (cases "matchAt r pv (plain rest)")
      case None
      from out A' replaceFromM_None[OF None, of f] obtain xs where rest: "rest = a # xs"
        and o2: "replaceFromM r f (Some (fst a)) xs = A'' @ M' @ B'"
        by (cases rest) auto
      have lt: "length xs < length rest" using rest by simp
      from ut A' have ut2: "\<not> touched A'' M' B'" using untouched_tail by blast
      from less.hyps[OF lt o2 ut2] obtain A2 B where
        d: "xs = A2 @ M' @ B" "(A2 = [] \<longleftrightarrow> A'' = [])" "(A'' \<noteq> [] \<longrightarrow> last A2 = last A'')"
           "(B = [] \<longleftrightarrow> B' = [])" "(B' \<noteq> [] \<longrightarrow> hd B = hd B')"
           "matchAt r (charBefore (Some (fst a)) A2) (plain (M' @ B)) = None" by blast
      have "charBefore pv (a # A2) = charBefore (Some (fst a)) A2"
        by (simp add: charBefore_def)
      with d rest A' show ?thesis
        by (intro exI[of _ "a # A2"] exI[of _ B]) auto
    next
      case (Some st)
      obtain pv' rest' caps where st: "st = (pv', rest', caps)" by (cases st)
      let ?k = "length rest - length rest'"
      let ?ins = "put (f (take ?k (plain rest)) (captureArray r caps))"
      have insne: "?ins \<noteq> []" using ne by simp
      have insm: "\<forall>x\<in>set ?ins. snd x" using put_marked by blast
      show ?thesis
      proof (cases "length rest' < length rest")
        case True
        with replaceFromM_Some[OF Some[unfolded st], of f]
        have o: "replaceFromM r f pv rest = ?ins @ replaceFromM r f pv' (drop ?k rest)"
          by simp
        with out have e: "?ins @ replaceFromM r f pv' (drop ?k rest) = A' @ M' @ B'" by simp
        from split_after_put[OF e insne insm ut] obtain A3 where
          A3: "A' = ?ins @ A3" "A3 \<noteq> []" by blast
        with e have o2: "replaceFromM r f pv' (drop ?k rest) = A3 @ M' @ B'" by simp
        have lt: "length (drop ?k rest) < length rest" using True by simp
        from ut A3 have ut2: "\<not> touched A3 M' B'" using untouched_drop by blast
        from less.hyps[OF lt o2 ut2] obtain A2 B where
          d: "drop ?k rest = A2 @ M' @ B" "(A2 = [] \<longleftrightarrow> A3 = [])" "(A3 \<noteq> [] \<longrightarrow> last A2 = last A3)"
             "(B = [] \<longleftrightarrow> B' = [])" "(B' \<noteq> [] \<longrightarrow> hd B = hd B')"
             "matchAt r (charBefore pv' A2) (plain (M' @ B)) = None" by blast
        from d(2) A3(2) have A2: "A2 \<noteq> []" by simp
        have r: "rest = (take ?k rest @ A2) @ M' @ B"
          using d(1) by (metis append_assoc append_take_drop_id)
        have cb: "charBefore pv (take ?k rest @ A2) = charBefore pv' A2"
          using A2 by (simp add: charBefore_def)
        have l: "last (take ?k rest @ A2) = last A'" using A2 A3 d(3) by simp
        from r cb l d(4,5,6) A2 False show ?thesis
          by (intro exI[of _ "take ?k rest @ A2"] exI[of _ B]) simp
      next
        case nolt: False
        show ?thesis
        proof (cases rest)
          case Nil
          with replaceFromM_Some[OF Some[unfolded st], of f] nolt
          have "replaceFromM r f pv rest = ?ins"
            by simp
          with out have e: "?ins @ [] = A' @ M' @ B'" by simp
          from split_after_put[OF e insne insm ut] obtain A3 where
            "A' = ?ins @ A3" "A3 \<noteq> []" by blast
          with e show ?thesis by simp
        next
          case (Cons x xs)
          with replaceFromM_Some[OF Some[unfolded st], of f] nolt
          have o: "replaceFromM r f pv rest = ?ins @ x # replaceFromM r f (Some (fst x)) xs"
            by simp
          with out have e: "?ins @ (x # replaceFromM r f (Some (fst x)) xs) = A' @ M' @ B'" by simp
          from split_after_put[OF e insne insm ut] obtain A3 where
            A3: "A' = ?ins @ A3" "A3 \<noteq> []" by blast
          with e have "x # replaceFromM r f (Some (fst x)) xs = A3 @ M' @ B'" by simp
          with A3(2) obtain A4 where A4: "A3 = x # A4"
            and o2: "replaceFromM r f (Some (fst x)) xs = A4 @ M' @ B'"
            by (cases A3) auto
          have lt: "length xs < length rest" using Cons by simp
          from ut A3 have "\<not> touched A3 M' B'" using untouched_drop by blast
          with A4 have ut2: "\<not> touched A4 M' B'" using untouched_tail by blast
          from less.hyps[OF lt o2 ut2] obtain A2 B where
            d: "xs = A2 @ M' @ B" "(A2 = [] \<longleftrightarrow> A4 = [])" "(A4 \<noteq> [] \<longrightarrow> last A2 = last A4)"
               "(B = [] \<longleftrightarrow> B' = [])" "(B' \<noteq> [] \<longrightarrow> hd B = hd B')"
               "matchAt r (charBefore (Some (fst x)) A2) (plain (M' @ B)) = None" by blast
          have cb: "charBefore pv (x # A2) = charBefore (Some (fst x)) A2"
            by (simp add: charBefore_def)
          have l: "last (x # A2) = last A'" using A3 A4 d(2,3) by auto
          from d Cons cb l False show ?thesis
            by (intro exI[of _ "x # A2"] exI[of _ B]) simp
        qed
      qed
    qed
  qed
qed

lemma matchAt_None_iff: "matchAt r pv rest = None \<longleftrightarrow> rmatch r (pv, rest, []) = []"
  by (simp add: matchAt_def split: list.splits)

lemma matchAt_suffix:
  assumes "matchAt r pv rest = Some (pv', rest', caps)"
  shows "suffix rest' rest"
proof -
  from assms have "(pv', rest', caps) \<in> set (rmatch r (pv, rest, []))"
    by (auto simp: matchAt_def split: list.splits)
  from rmatch_suffix[OF this] show ?thesis by simp
qed

lemma wordAhead_same:
  "(B = [] \<longleftrightarrow> B' = []) \<Longrightarrow> (B' \<noteq> [] \<longrightarrow> hd B = hd B') \<Longrightarrow>
   wordAhead (plain B') = wordAhead (plain B)"
  by (cases B; cases B') (simp_all add: wordAhead_def)

lemma charBefore_same:
  "(A = [] \<longleftrightarrow> A' = []) \<Longrightarrow> (A' \<noteq> [] \<longrightarrow> last A = last A') \<Longrightarrow>
   charBefore pv A = charBefore pv A'"
  by (auto simp: charBefore_def)

lemma matchesSpan_moved:
  assumes "matchesSpan r pv m ys" and "wordAhead ys = wordAhead ys2"
  shows "matchesSpan r pv m ys2"
proof -
  from assms(1) obtain st where st: "st \<in> set (rmatch r (pv, m @ ys, []))" and e: "restOf st = ys"
    by (auto simp: matchesSpan_def list_ex_iff)
  from rmatch_local[OF st, of m ys "[]" ys2] e assms(2)
  have "(fst st, ys2, snd (snd st)) \<in> set (rmatch r (pv, m @ ys2, []))" by simp
  then show ?thesis
    by (auto simp: matchesSpan_def list_ex_iff intro!: bexI[of _ "(fst st, ys2, snd (snd st))"])
qed

lemma matchesSpan_found: "matchesSpan r pv m ys \<Longrightarrow> matchAt r pv (m @ ys) \<noteq> None"
  by (auto simp: matchesSpan_def list_ex_iff matchAt_None_iff)

lemma scan_window_match:
  assumes ne: "\<And>m caps. f m caps \<noteq> []"
    and out: "replaceFromM r' f None rest = A' @ M' @ B'"
    and ut: "\<not> touched A' M' B'"
    and ms: "matchesSpan r (lastChar A') (plain M') (plain B')"
  shows "\<exists>A B. rest = A @ M' @ B \<and> \<not> touched A M' B
               \<and> matchesSpan r (lastChar A) (plain M') (plain B)
               \<and> matchAt r' (lastChar A) (plain M' @ plain B) = None"
proof -
  from scan_window[OF ne out ut] obtain A B where
    d: "rest = A @ M' @ B" "(A = [] \<longleftrightarrow> A' = [])" "(A' \<noteq> [] \<longrightarrow> last A = last A')"
       "(B = [] \<longleftrightarrow> B' = [])" "(B' \<noteq> [] \<longrightarrow> hd B = hd B')"
       "matchAt r' (charBefore None A) (plain (M' @ B)) = None" by blast
  have cb: "lastChar A = lastChar A'"
    using charBefore_same[OF d(2,3)] by (simp add: lastChar_charBefore)
  have "matchesSpan r (lastChar A') (plain M') (plain B)"
    using ms wordAhead_same[OF d(4,5)] by (rule matchesSpan_moved)
  moreover have "\<not> touched A M' B"
    using ut d(2,3,4,5) by (auto simp: touched_def)
  ultimately show ?thesis
    using d(1,6) cb
    by (intro exI[of _ A] exI[of _ B]) (simp add: lastChar_charBefore)
qed

lemma no_untouched_match_after:
  assumes ne: "\<And>m caps. f m caps \<noteq> []"
    and out: "replaceFromM r f None rest = A' @ M' @ B'"
    and ut: "\<not> touched A' M' B'"
  shows "\<not> matchesSpan r (lastChar A') (plain M') (plain B')"
proof
  assume "matchesSpan r (lastChar A') (plain M') (plain B')"
  from scan_window_match[OF ne out ut this] obtain A B where
    "matchesSpan r (lastChar A) (plain M') (plain B)"
    "matchAt r (lastChar A) (plain M' @ plain B) = None" by blast
  with matchesSpan_found show False by blast
qed

lemma foldl_no_untouched_match:
  assumes ne: "\<forall>q\<in>set ps. \<forall>m caps. replacementFor q m caps \<noteq> []"
  shows "p \<in> set ps \<Longrightarrow> foldl applyPatternM ms ps = A @ M @ B \<Longrightarrow>
         matchesSpan (regex p) (lastChar A) (plain M) (plain B) \<Longrightarrow> touched A M B"
  using ne
proof (induction ps arbitrary: A M B rule: rev_induct)
  case Nil
  then show ?case by simp
next
  case (snoc q qs)
  let ?mid = "foldl applyPatternM ms qs"
  have nq: "\<And>m caps. replacementFor q m caps \<noteq> []" using snoc.prems(4) by simp
  have e: "applyPatternM ?mid q = replaceFromM (regex q) (replacementFor q) None ?mid"
    by (rule applyPatternM_def)
  from snoc.prems(2) have "applyPatternM ?mid q = A @ M @ B" by simp
  then have out: "replaceFromM (regex q) (replacementFor q) None ?mid = A @ M @ B"
    by (simp only: e)
  show ?case
  proof (rule ccontr)
    assume ut: "\<not> touched A M B"
    show False
    proof (cases "p = q")
      case True
      with no_untouched_match_after[OF nq out ut] snoc.prems(3) show False by simp
    next
      case False
      with snoc.prems(1) have pq: "p \<in> set qs" by simp
      from scan_window_match[OF nq out ut snoc.prems(3)] obtain A2 B2 where
        m: "?mid = A2 @ M @ B2" "\<not> touched A2 M B2"
           "matchesSpan (regex p) (lastChar A2) (plain M) (plain B2)" by blast
      have "\<forall>q\<in>set qs. \<forall>m caps. replacementFor q m caps \<noteq> []" using snoc.prems(4) by simp
      from snoc.IH[OF pq m(1) m(3) this] m(2) show False by simp
    qed
  qed
qed

lemma resolveSecretToken_nonempty: "resolveSecretToken label \<noteq> []"
  by (simp add: resolveSecretToken_def Let_def)

lemma replacement_nonempty: "p \<in> set PATTERNS \<Longrightarrow> replacementFor p m caps \<noteq> []"
  by (auto simp: PATTERNS_def replacementFor_def Let_def resolveSecretToken_nonempty)

lemma runMarked_no_untouched_match:
  assumes "p \<in> set PATTERNS" and "runMarked t = A @ M @ B"
    and "matchesSpan (regex p) (lastChar A) (plain M) (plain B)"
  shows "touched A M B"
proof -
  have "\<forall>q\<in>set PATTERNS. \<forall>m caps. replacementFor q m caps \<noteq> []"
    using replacement_nonempty by blast
  from foldl_no_untouched_match[OF this assms(1) assms(2)[unfolded runMarked_def] assms(3)]
  show ?thesis .
qed

lemma replaceFrom_None:
  "matchAt r pv rest = None \<Longrightarrow>
   replaceFrom r f pv rest =
     (case rest of
        [] \<Rightarrow> ([], [])
      | c # cs \<Rightarrow> (case replaceFrom r f (Some c) cs of (out, calls) \<Rightarrow> (c # out, calls)))"
  by (subst replaceFrom.simps) simp

lemma replaceFrom_Some:
  "matchAt r pv rest = Some (pv', rest', caps) \<Longrightarrow>
   replaceFrom r f pv rest =
     (if length rest' < length rest
      then (case replaceFrom r f pv' rest' of
              (out, calls) \<Rightarrow>
                (f (take (length rest - length rest') rest) (captureArray r caps) @ out,
                 (take (length rest - length rest') rest, captureArray r caps) # calls))
      else (case rest of
              [] \<Rightarrow> (f (take (length rest - length rest') rest) (captureArray r caps),
                     [(take (length rest - length rest') rest, captureArray r caps)])
            | c # cs \<Rightarrow>
                (case replaceFrom r f (Some c) cs of
                   (out, calls) \<Rightarrow>
                     (f (take (length rest - length rest') rest) (captureArray r caps) @ c # out,
                      (take (length rest - length rest') rest, captureArray r caps) # calls))))"
  by (subst replaceFrom.simps) (simp add: Let_def)

lemma plain_put [simp]: "plain (put s) = s"
  by (simp add: plain_def put_def comp_def)

lemma plain_drop_suffix:
  assumes "suffix rest' (plain rest)"
  shows "plain (drop (length rest - length rest') rest) = rest'"
proof -
  from assms obtain u where u: "plain rest = u @ rest'" by (auto simp: suffix_def)
  then have "length rest = length u + length rest'"
    by (metis length_append plain_simps(4))
  then have "drop (length rest - length rest') (plain rest) = rest'"
    using u by simp
  then show ?thesis by (simp add: plain_def drop_map)
qed

lemma plain_replaceFromM:
  "plain (replaceFromM r f pv rest) = fst (replaceFrom r f pv (plain rest))"
proof (induction "length rest" arbitrary: pv rest rule: less_induct)
  case less
  show ?case
  proof (cases "matchAt r pv (plain rest)")
    case None
    show ?thesis
    proof (cases rest)
      case Nil
      with None replaceFromM_None[OF None, of f] replaceFrom_None[OF None, of f]
      show ?thesis by simp
    next
      case (Cons x xs)
      then have "length xs < length rest" by simp
      from less[OF this, of "Some (fst x)"] Cons
        replaceFromM_None[OF None, of f] replaceFrom_None[OF None, of f]
      show ?thesis by (simp split: prod.splits)
    qed
  next
    case (Some st)
    obtain pv' rest' caps where st: "st = (pv', rest', caps)" by (cases st)
    note S = Some[unfolded st]
    let ?k = "length rest - length rest'"
    have dr: "plain (drop ?k rest) = rest'"
      using matchAt_suffix[OF S] by (rule plain_drop_suffix)
    note uM = replaceFromM_Some[OF S, of f]
    note uR = replaceFrom_Some[OF S, of f]
    show ?thesis
    proof (cases "length rest' < length rest")
      case True
      then have "length (drop ?k rest) < length rest" by simp
      from less[OF this, of pv'] have
        ih: "plain (replaceFromM r f pv' (drop ?k rest)) = fst (replaceFrom r f pv' rest')"
        by (simp only: dr)
      from True have "replaceFromM r f pv rest
          = put (f (take ?k (plain rest)) (captureArray r caps)) @ replaceFromM r f pv' (drop ?k rest)"
        using uM by simp
      moreover from True have "fst (replaceFrom r f pv (plain rest))
          = f (take ?k (plain rest)) (captureArray r caps) @ fst (replaceFrom r f pv' rest')"
        using uR by (simp split: prod.splits)
      ultimately show ?thesis using ih by simp
    next
      case False
      show ?thesis
      proof (cases rest)
        case Nil
        with False uM uR show ?thesis by simp
      next
        case (Cons x xs)
        then have "length xs < length rest" by simp
        from less[OF this, of "Some (fst x)"] have
          ih: "plain (replaceFromM r f (Some (fst x)) xs) = fst (replaceFrom r f (Some (fst x)) (plain xs))" .
        from False Cons have "replaceFromM r f pv rest
          = put (f (take ?k (plain rest)) (captureArray r caps)) @ x # replaceFromM r f (Some (fst x)) xs"
          using uM by simp
        moreover from False Cons have "fst (replaceFrom r f pv (plain rest))
          = f (take ?k (plain rest)) (captureArray r caps) @ fst x
              # fst (replaceFrom r f (Some (fst x)) (plain xs))"
          using uR by (simp split: prod.splits)
        ultimately show ?thesis using ih by simp
      qed
    qed
  qed
qed

lemma plain_foldl:
  "plain ms = t \<Longrightarrow> plain (foldl applyPatternM ms ps) = fst (foldl applyPattern (t, acc) ps)"
proof (induction ps arbitrary: ms t acc)
  case Nil
  then show ?case by simp
next
  case (Cons p ps)
  obtain t1 acc1 where a: "applyPattern (t, acc) p = (t1, acc1)"
    by (cases "applyPattern (t, acc) p")
  have "plain (applyPatternM ms p) = t1"
    using a Cons.prems
    by (auto simp: applyPatternM_def applyPattern_def plain_replaceFromM replaceAll_def
          split: prod.splits)
  from Cons.IH[OF this, of acc1] a show ?case by simp
qed

lemma plain_kept [simp]: "plain (kept t) = t"
  by (simp add: plain_def kept_def comp_def)

lemma plain_runMarked: "plain (runMarked t) = cleanedText (runPrivacyPipeline t)"
  using plain_foldl[of "kept t" t PATTERNS "(0, 0, Map.empty)"]
  by (simp add: runMarked_def runPrivacyPipeline_def split: prod.splits)

lemma leftInPlace_simps [simp]:
  "leftInPlace [] = []"
  "leftInPlace (xs @ ys) = leftInPlace xs @ leftInPlace ys"
  "leftInPlace (put s) = []"
  "leftInPlace (kept s) = kept s"
  by (simp_all add: leftInPlace_def put_def kept_def filter_map comp_def)

lemma leftInPlace_Cons: "leftInPlace (x # xs) = (if snd x then leftInPlace xs else x # leftInPlace xs)"
  by (simp add: leftInPlace_def)

lemma subseq_leftInPlace_drop: "subseq (leftInPlace (drop k xs)) (leftInPlace xs)"
  by (metis append_take_drop_id leftInPlace_simps(2) list_emb_append2 subseq_order.order_refl)

lemma leftInPlace_replaceFromM:
  "subseq (leftInPlace (replaceFromM r f pv rest)) (leftInPlace rest)"
proof (induction "length rest" arbitrary: pv rest rule: less_induct)
  case less
  show ?case
  proof (cases "matchAt r pv (plain rest)")
    case None
    show ?thesis
    proof (cases rest)
      case Nil
      with replaceFromM_None[OF None, of f] show ?thesis by simp
    next
      case (Cons x xs)
      then have "length xs < length rest" by simp
      from less[OF this, of "Some (fst x)"] Cons replaceFromM_None[OF None, of f]
      show ?thesis by (simp add: leftInPlace_Cons)
    qed
  next
    case (Some st)
    obtain pv' rest' caps where st: "st = (pv', rest', caps)" by (cases st)
    note S = Some[unfolded st]
    let ?k = "length rest - length rest'"
    note uM = replaceFromM_Some[OF S, of f]
    show ?thesis
    proof (cases "length rest' < length rest")
      case True
      then have "length (drop ?k rest) < length rest" by simp
      from less[OF this, of pv'] have
        "subseq (leftInPlace (replaceFromM r f pv' (drop ?k rest))) (leftInPlace (drop ?k rest))" .
      then have "subseq (leftInPlace (replaceFromM r f pv' (drop ?k rest))) (leftInPlace rest)"
        using subseq_leftInPlace_drop subseq_order.trans by blast
      with True uM show ?thesis by simp
    next
      case False
      show ?thesis
      proof (cases rest)
        case Nil
        with False uM show ?thesis by simp
      next
        case (Cons x xs)
        then have "length xs < length rest" by simp
        from less[OF this, of "Some (fst x)"] False Cons uM
        show ?thesis by (simp add: leftInPlace_Cons)
      qed
    qed
  qed
qed

lemma leftInPlace_foldl:
  "subseq (leftInPlace (foldl applyPatternM ms ps)) (leftInPlace ms)"
proof (induction ps arbitrary: ms)
  case Nil
  then show ?case by simp
next
  case (Cons p ps)
  have "subseq (leftInPlace (applyPatternM ms p)) (leftInPlace ms)"
    by (simp add: applyPatternM_def leftInPlace_replaceFromM)
  with Cons[of "applyPatternM ms p"] show ?case
    using subseq_order.trans by auto
qed

lemma leftInPlace_runMarked: "subseq (plain (leftInPlace (runMarked t))) t"
proof -
  have "subseq (leftInPlace (runMarked t)) (kept t)"
    using leftInPlace_foldl[of "kept t" PATTERNS] by (simp add: runMarked_def)
  then have "subseq (plain (leftInPlace (runMarked t))) (plain (kept t))"
    unfolding plain_def by (rule subseq_map)
  then show ?thesis by simp
qed

lemma replaceFrom_no_match:
  "\<not> testFrom r pv rest \<Longrightarrow> replaceFrom r f pv rest = (rest, [])"
proof (induction rest arbitrary: pv)
  case Nil
  then have "matchAt r pv [] = None" by (cases "matchAt r pv []") simp_all
  from replaceFrom_None[OF this, of f] show ?case by simp
next
  case (Cons c cs)
  then have n: "matchAt r pv (c # cs) = None" and t: "\<not> testFrom r (Some c) cs"
    by (cases "matchAt r pv (c # cs)"; simp)+
  from replaceFrom_None[OF n, of f] Cons.IH[OF t] show ?case by simp
qed

lemma replaceFromM_no_match:
  "\<not> testFrom r pv (plain rest) \<Longrightarrow> replaceFromM r f pv rest = rest"
proof (induction rest arbitrary: pv)
  case Nil
  then have "matchAt r pv (plain []) = None" by (cases "matchAt r pv []") simp_all
  from replaceFromM_None[OF this, of f] show ?case by simp
next
  case (Cons c cs)
  then have n: "matchAt r pv (plain (c # cs)) = None" and t: "\<not> testFrom r (Some (fst c)) (plain cs)"
    by (cases "matchAt r pv (plain (c # cs))"; simp)+
  from replaceFromM_None[OF n, of f] Cons.IH[OF t] show ?case by simp
qed

lemma replaceFrom_calls_match:
  "snd (replaceFrom r f pv rest) = [] \<Longrightarrow> \<not> testFrom r pv rest"
proof (induction rest arbitrary: pv)
  case Nil
  show ?case
  proof (cases "matchAt r pv []")
    case None
    then show ?thesis by simp
  next
    case (Some st)
    obtain pv' rest' caps where st: "st = (pv', rest', caps)" by (cases st)
    from replaceFrom_Some[OF Some[unfolded st], of f] Nil show ?thesis by simp
  qed
next
  case (Cons c cs)
  show ?case
  proof (cases "matchAt r pv (c # cs)")
    case None
    from replaceFrom_None[OF None, of f] Cons.prems
    have "snd (replaceFrom r f (Some c) cs) = []" by (simp split: prod.splits)
    from Cons.IH[OF this] None show ?thesis by simp
  next
    case (Some st)
    obtain pv' rest' caps where st: "st = (pv', rest', caps)" by (cases st)
    from replaceFrom_Some[OF Some[unfolded st], of f] Cons.prems show ?thesis
      by (simp split: prod.splits if_splits)
  qed
qed

lemma applyPattern_calls:
  assumes "applyPattern (t, n, h, m) P = (t', n', h', m')"
  shows "n' = n + length (snd (replaceAll (regex P) (replacementFor P) t))"
proof -
  obtain out calls where rc: "replaceAll (regex P) (replacementFor P) t = (out, calls)"
    by (cases "replaceAll (regex P) (replacementFor P) t")
  from assms rc have "(n', h', m') = foldl (\<lambda>a call. recordCall P call a) (n, h, m) calls"
    by (simp add: applyPattern_def)
  then have "n' = n + length calls"
    using foldl_recordCall_count[of P n h m calls] by (metis fst_conv)
  with rc show ?thesis by simp
qed

lemma foldl_count_zero_no_match:
  "foldl applyPattern (t, n, h, m) ps = (t', n', h', m') \<Longrightarrow> n' = n \<Longrightarrow>
   \<forall>p\<in>set ps. \<not> regexTest (regex p) t"
proof (induction ps arbitrary: t n h m)
  case Nil
  then show ?case by simp
next
  case (Cons P ps)
  obtain t1 n1 h1 m1 where s1: "applyPattern (t, n, h, m) P = (t1, n1, h1, m1)"
    by (cases "applyPattern (t, n, h, m) P") auto
  from Cons.prems(1) s1 have f: "foldl applyPattern (t1, n1, h1, m1) ps = (t', n', h', m')" by simp
  from foldl_applyPattern_count[OF f] applyPattern_count[OF s1] Cons.prems(2)
  have e: "n1 = n" "t1 = t" "n' = n1" by auto
  from applyPattern_calls[OF s1] e(1)
  have "snd (replaceAll (regex P) (replacementFor P) t) = []" by simp
  then have "\<not> regexTest (regex P) t"
    unfolding replaceAll_def regexTest_def by (rule replaceFrom_calls_match)
  moreover from Cons.IH[OF f e(3)] e(2) have "\<forall>p\<in>set ps. \<not> regexTest (regex p) t" by simp
  ultimately show ?case by simp
qed

lemma foldl_no_match:
  "\<forall>p\<in>set ps. \<not> regexTest (regex p) t \<Longrightarrow> foldl applyPattern (t, acc) ps = (t, acc)"
proof (induction ps)
  case Nil
  then show ?case by simp
next
  case (Cons P ps)
  then have "\<not> testFrom (regex P) None t" by (simp add: regexTest_def)
  from replaceFrom_no_match[OF this, of "replacementFor P"]
  have "applyPattern (t, acc) P = (t, acc)"
    by (simp add: applyPattern_def replaceAll_def)
  with Cons show ?case by simp
qed

lemma foldlM_no_match:
  "\<forall>p\<in>set ps. \<not> regexTest (regex p) (plain ms) \<Longrightarrow> foldl applyPatternM ms ps = ms"
proof (induction ps)
  case Nil
  then show ?case by simp
next
  case (Cons P ps)
  then have "\<not> testFrom (regex P) None (plain ms)" by (simp add: regexTest_def)
  from replaceFromM_no_match[OF this, of "replacementFor P"]
  have "applyPatternM ms P = ms"
    by (simp add: applyPatternM_def)
  with Cons show ?case by simp
qed

lemma redactionCount_zero_iff:
  "redactionCount (runPrivacyPipeline x) = 0 \<longleftrightarrow> (\<forall>p\<in>set PATTERNS. \<not> regexTest (regex p) x)"
proof
  assume z: "redactionCount (runPrivacyPipeline x) = 0"
  obtain t' n' h' m' where f: "foldl applyPattern (x, 0, 0, Map.empty) PATTERNS = (t', n', h', m')"
    by (cases "foldl applyPattern (x, 0, 0, Map.empty) PATTERNS") auto
  from z f have "n' = 0" by (simp add: runPrivacyPipeline_def)
  from foldl_count_zero_no_match[OF f this] show "\<forall>p\<in>set PATTERNS. \<not> regexTest (regex p) x" .
next
  assume "\<forall>p\<in>set PATTERNS. \<not> regexTest (regex p) x"
  from foldl_no_match[OF this, of "(0, 0, Map.empty)"]
  show "redactionCount (runPrivacyPipeline x) = 0"
    by (simp add: runPrivacyPipeline_def)
qed

lemma runMarked_unredacted:
  assumes "redactionCount (runPrivacyPipeline t) = 0"
  shows "runMarked t = kept t"
proof -
  from assms have "\<forall>p\<in>set PATTERNS. \<not> regexTest (regex p) (plain (kept t))"
    by (simp add: redactionCount_zero_iff)
  from foldlM_no_match[OF this] show ?thesis by (simp add: runMarked_def)
qed

lemma testFrom_span:
  "testFrom r pv rest \<Longrightarrow>
   \<exists>A M B. rest = A @ M @ B \<and> matchesSpan r (if A = [] then pv else Some (last A)) M B"
proof (induction rest arbitrary: pv)
  case Nil
  then have "rmatch r (pv, [], []) \<noteq> []" by (simp add: matchAt_None_iff)
  then obtain st where st: "st \<in> set (rmatch r (pv, [], []))" by (cases "rmatch r (pv, [], [])") auto
  from rmatch_suffix[OF st] have "restOf st = []" by simp
  with st have m: "matchesSpan r pv [] []" by (auto simp: matchesSpan_def list_ex_iff)
  show ?case
    apply (rule exI[of _ "[]"], rule exI[of _ "[]"], rule exI[of _ "[]"])
    using m apply simp
    done
next
  case (Cons c cs)
  show ?case
  proof (cases "matchAt r pv (c # cs) = None")
    case False
    then have "rmatch r (pv, c # cs, []) \<noteq> []" by (simp add: matchAt_None_iff)
    then obtain st where st: "st \<in> set (rmatch r (pv, c # cs, []))"
      by (cases "rmatch r (pv, c # cs, [])") auto
    from rmatch_suffix[OF st] obtain M where M: "c # cs = M @ restOf st"
      by (auto simp: suffix_def)
    with st have m: "matchesSpan r pv M (restOf st)"
      by (auto simp: matchesSpan_def list_ex_iff)
    show ?thesis
      apply (rule exI[of _ "[]"], rule exI[of _ M], rule exI[of _ "restOf st"])
      using m M apply simp
      done
  next
    case True
    with Cons.prems have "testFrom r (Some c) cs" by simp
    from Cons.IH[OF this] obtain A M B where
      d: "cs = A @ M @ B" "matchesSpan r (if A = [] then Some c else Some (last A)) M B" by blast
    show ?thesis
      apply (rule exI[of _ "c # A"], rule exI[of _ M], rule exI[of _ B])
      using d apply (cases "A = []"; simp)
      done
  qed
qed

lemma plain_split:
  assumes "plain ms = A0 @ M0 @ B0"
  shows "\<exists>A M B. ms = A @ M @ B \<and> plain A = A0 \<and> plain M = M0 \<and> plain B = B0"
proof -
  from assms have "map fst ms = A0 @ (M0 @ B0)" by (simp add: plain_def)
  from this[THEN map_eq_append_conv[THEN iffD1]]
  obtain A R where a: "ms = A @ R \<and> A0 = map fst A \<and> M0 @ B0 = map fst R" by blast
  then have "map fst R = M0 @ B0" by simp
  from this[THEN map_eq_append_conv[THEN iffD1]]
  obtain M B where b: "R = M @ B \<and> M0 = map fst M \<and> B0 = map fst B" by blast
  show ?thesis
    apply (rule exI[of _ A], rule exI[of _ M], rule exI[of _ B])
    using a b apply (simp add: plain_def)
    done
qed

lemma lastChar_plain: "lastChar A = (if plain A = [] then None else Some (last (plain A)))"
  by (simp add: lastChar_def plain_def last_map)

lemma regexTest_span:
  assumes "regexTest r (plain ms)"
  shows "\<exists>A M B. ms = A @ M @ B \<and> matchesSpan r (lastChar A) (plain M) (plain B)"
proof -
  from testFrom_span[OF assms[unfolded regexTest_def]] obtain A0 M0 B0 where
    d: "plain ms = A0 @ M0 @ B0" "matchesSpan r (if A0 = [] then None else Some (last A0)) M0 B0"
    by blast
  from plain_split[OF d(1)] obtain A M B where
    s: "ms = A @ M @ B" "plain A = A0" "plain M = M0" "plain B = B0" by blast
  have "lastChar A = (if A0 = [] then None else Some (last A0))"
    using s(2) by (simp only: lastChar_plain)
  with d(2) s(3,4) have "matchesSpan r (lastChar A) (plain M) (plain B)" by simp
  with s(1) show ?thesis by blast
qed

lemma applyPatternM_guard:
  "needs q r \<Longrightarrow>
   applyPatternM ms \<lparr>name = n, regex = r, severity = s, captureIndex = ci, replacement = rp\<rparr>
     = (if list_ex q (plain ms)
        then replaceFromM r (replacementFor
               \<lparr>name = n, regex = r, severity = s, captureIndex = ci, replacement = rp\<rparr>) None ms
        else ms)"
  using testFrom_needs[of q r "plain ms" None]
    replaceFromM_no_match[of r None ms]
  by (auto simp: applyPatternM_def list_ex_iff)

lemmas guardsM =
  applyPatternM_guard[OF email_needs] applyPatternM_guard[OF phone_needs]
  applyPatternM_guard[OF ssn_needs] applyPatternM_guard[OF credit_card_needs]
  applyPatternM_guard[OF financial_amount_needs] applyPatternM_guard[OF openai_or_stripe_key_needs]
  applyPatternM_guard[OF aws_access_key_needs] applyPatternM_guard[OF jwt_needs]
  applyPatternM_guard[OF generic_secret_assignment_needs] applyPatternM_guard[OF bank_account_needs]
  applyPatternM_guard[OF project_code_needs]

lemmas marked_eval = guardsM pattern_unfold syntax_eval char_eval rmatch.simps replaceFromM.simps
  matchAt_def captureArray_def wordBefore_def wordAhead_def shorter_def
  PATTERNS_def runMarked_def replacementFor_def resolveSecretToken_def nthOr_def trim_def
  toLowerCase_def kept_def put_def plain_def

lemma marked_dollars:
  "runMarked ''$1$2'' = put ''[REDACTED_FINANCIAL_AMOUNT]'' @ kept ''$2''"
  by (simp add: marked_eval)

lemma marked_phone:
  "runMarked ''My number is 9876543210.'' =
     kept ''My number is '' @ put ''[REDACTED_PHONE]'' @ kept ''.''"
  by (simp add: marked_eval)

lemma pipeline_phone:
  "runPrivacyPipeline ''My number is 9876543210.'' =
     \<lparr>cleanedText = ''My number is [REDACTED_PHONE].'', redactionCount = 1, riskLevel = LOW,
      confidence = HIGH, syntheticMap = [''9876543210'' \<mapsto> ''[REDACTED_PHONE]'']\<rparr>"
  by (simp add: pipeline_eval)

lemma pipeline_phone_again:
  "redactionCount (runPrivacyPipeline ''My number is [REDACTED_PHONE].'') = 0"
  by (simp add: pipeline_eval)

lemma span_dollars:
  "matchesSpan financial_amount_regex (lastChar (put ''[REDACTED_FINANCIAL_AMOUNT]'')) ''$2'' []"
  by (simp add: matchesSpan_def lastChar_def put_def financial_amount_regex_def syntax_eval
        char_eval rmatch.simps wordBefore_def wordAhead_def shorter_def)

lemma marked_password:
  "runMarked ''password: hunter2222'' = put ''password: [REDACTED_PASSWORD]''"
  by (simp add: marked_eval)

lemma marked_line_a: "runMarked ''[1] a'' = kept ''[1] a''"
  by (simp add: marked_eval)

text \<open>
  C3, as stated, fails. On the text \<open>$1$2\<close> the first run redacts \<open>$1\<close> only: the lookbehind
  \<open>(?<!\w)\<close> of the amount pattern rejects \<open>$2\<close> behind the digit 1. In the cleaned text
  \<open>$2\<close> stands behind the closing bracket of the placeholder, and the second run redacts
  it.
\<close>

theorem redaction_not_idempotent:
  "redactionCount (runPrivacyPipeline (cleanedText (runPrivacyPipeline ''$1$2''))) \<noteq> 0"
  by (simp add: pipeline_dollars pipeline_dollars_again)

text \<open>
  C3, amended. A second run of the pipeline on the cleaned text of the first run fires only
  at a replacement of the first run. In the cleaned text, with the characters of the
  replacement texts marked (without the marks it is the cleaned text, and the unmarked
  characters are characters of the input in their order), every match of a pattern holds a
  marked character or stands directly behind or directly before one: no pattern matches a
  part of the input that the first run left in place together with the characters on both
  sides of it. If the second run fires a pattern, some pattern has such a match at a
  replacement. A run fires no pattern exactly if no pattern matches its input; then the
  cleaned text is the input, nothing is marked, and a second run fires no pattern either.
\<close>

theorem redaction_refires_only_at_replacements:
  "plain (runMarked t) = cleanedText (runPrivacyPipeline t)
   \<and> subseq (plain (leftInPlace (runMarked t))) t
   \<and> (p \<in> set PATTERNS \<and> runMarked t = before @ m @ after
        \<and> matchesSpan (regex p) (lastChar before) (plain m) (plain after)
      \<longrightarrow> touched before m after)
   \<and> (redactionCount (runPrivacyPipeline (cleanedText (runPrivacyPipeline t))) \<noteq> 0 \<longrightarrow>
        (\<exists>q\<in>set PATTERNS. \<exists>A M B. runMarked t = A @ M @ B
            \<and> matchesSpan (regex q) (lastChar A) (plain M) (plain B) \<and> touched A M B))
   \<and> (redactionCount (runPrivacyPipeline t) = 0 \<longrightarrow>
        cleanedText (runPrivacyPipeline t) = t \<and> runMarked t = kept t
        \<and> redactionCount (runPrivacyPipeline (cleanedText (runPrivacyPipeline t))) = 0)
   \<and> (redactionCount (runPrivacyPipeline x) = 0) = (\<forall>q\<in>set PATTERNS. \<not> regexTest (regex q) x)"
proof -
  have c: "p \<in> set PATTERNS \<and> runMarked t = before @ m @ after
        \<and> matchesSpan (regex p) (lastChar before) (plain m) (plain after)
      \<longrightarrow> touched before m after"
    using runMarked_no_untouched_match[of p t before m after] by blast
  have d: "redactionCount (runPrivacyPipeline (cleanedText (runPrivacyPipeline t))) \<noteq> 0 \<longrightarrow>
        (\<exists>q\<in>set PATTERNS. \<exists>A M B. runMarked t = A @ M @ B
            \<and> matchesSpan (regex q) (lastChar A) (plain M) (plain B) \<and> touched A M B)"
  proof
    assume "redactionCount (runPrivacyPipeline (cleanedText (runPrivacyPipeline t))) \<noteq> 0"
    then obtain q where q: "q \<in> set PATTERNS"
      and r: "regexTest (regex q) (plain (runMarked t))"
      by (auto simp: redactionCount_zero_iff plain_runMarked)
    from regexTest_span[OF r] obtain A M B where
      s: "runMarked t = A @ M @ B" "matchesSpan (regex q) (lastChar A) (plain M) (plain B)"
      by blast
    from runMarked_no_untouched_match[OF q s] have "touched A M B" .
    with q s show "\<exists>q\<in>set PATTERNS. \<exists>A M B. runMarked t = A @ M @ B
            \<and> matchesSpan (regex q) (lastChar A) (plain M) (plain B) \<and> touched A M B"
      by blast
  qed
  have e: "redactionCount (runPrivacyPipeline t) = 0 \<longrightarrow>
        cleanedText (runPrivacyPipeline t) = t \<and> runMarked t = kept t
        \<and> redactionCount (runPrivacyPipeline (cleanedText (runPrivacyPipeline t))) = 0"
    using runPrivacyPipeline_unredacted[of t] runMarked_unredacted[of t] by simp
  from plain_runMarked[of t] leftInPlace_runMarked[of t] c d e redactionCount_zero_iff[of x]
  show ?thesis by (intro conjI)
qed

theorem redaction_refires_only_at_replacements_witness:
  "runMarked ''My number is 9876543210.'' =
     kept ''My number is '' @ put ''[REDACTED_PHONE]'' @ kept ''.''
   \<and> cleanedText (runPrivacyPipeline ''My number is 9876543210.'') = ''My number is [REDACTED_PHONE].''
   \<and> redactionCount (runPrivacyPipeline ''My number is 9876543210.'') = 1
   \<and> redactionCount (runPrivacyPipeline
         (cleanedText (runPrivacyPipeline ''My number is 9876543210.''))) = 0
   \<and> runMarked ''$1$2'' = put ''[REDACTED_FINANCIAL_AMOUNT]'' @ kept ''$2''
   \<and> matchesSpan financial_amount_regex (lastChar (put ''[REDACTED_FINANCIAL_AMOUNT]'')) ''$2'' []
   \<and> touched (put ''[REDACTED_FINANCIAL_AMOUNT]'') (kept ''$2'') []
   \<and> redactionCount (runPrivacyPipeline ''[1] a'') = 0
   \<and> cleanedText (runPrivacyPipeline ''[1] a'') = ''[1] a''
   \<and> runMarked ''[1] a'' = kept ''[1] a''
   \<and> redactionCount (runPrivacyPipeline (cleanedText (runPrivacyPipeline ''[1] a''))) = 0
   \<and> runMarked ''password: hunter2222'' = put ''password: [REDACTED_PASSWORD]''"
proof -
  let ?amount = "\<lparr>name = ''financial_amount'', regex = financial_amount_regex, severity = medium,
       captureIndex = None, replacement = Fixed ''[REDACTED_FINANCIAL_AMOUNT]''\<rparr>"
  note th = redaction_refires_only_at_replacements
  have c: "cleanedText (runPrivacyPipeline ''My number is 9876543210.'') = ''My number is [REDACTED_PHONE].''"
    using th[where t="''My number is 9876543210.''", THEN conjunct1]
    by (simp add: marked_phone)
  have n: "redactionCount (runPrivacyPipeline ''My number is 9876543210.'') = 1"
    by (simp add: pipeline_phone)
  have a: "redactionCount (runPrivacyPipeline
         (cleanedText (runPrivacyPipeline ''My number is 9876543210.''))) = 0"
    by (simp only: c pipeline_phone_again)
  have p: "?amount \<in> set PATTERNS" by (simp add: PATTERNS_def)
  have sp: "matchesSpan (regex ?amount) (lastChar (put ''[REDACTED_FINANCIAL_AMOUNT]''))
              (plain (kept ''$2'')) (plain [])"
    using span_dollars by simp
  have d: "runMarked ''$1$2'' = put ''[REDACTED_FINANCIAL_AMOUNT]'' @ kept ''$2'' @ []"
    by (simp add: marked_dollars)
  have t: "touched (put ''[REDACTED_FINANCIAL_AMOUNT]'') (kept ''$2'') []"
    using th[where t="''$1$2''" and p="?amount" and before="put ''[REDACTED_FINANCIAL_AMOUNT]''"
             and m="kept ''$2''" and after="[]"] p sp d
    by blast
  have z: "redactionCount (runPrivacyPipeline ''[1] a'') = 0"
    by (simp add: pipeline_line_a)
  have e: "cleanedText (runPrivacyPipeline ''[1] a'') = ''[1] a''"
    "runMarked ''[1] a'' = kept ''[1] a''"
    "redactionCount (runPrivacyPipeline (cleanedText (runPrivacyPipeline ''[1] a''))) = 0"
    using th[where t="''[1] a''"] z by blast+
  from marked_phone c n a marked_dollars span_dollars t z e marked_password
  show ?thesis by (intro conjI)
qed

section \<open>Properties of the embedding service\<close>

lemma length_normalize: "length (normalize v) = length v"
  by (simp add: normalize_def Let_def)

lemma length_generateLocalEmbedding: "length (generateLocalEmbedding sha t d) = d"
  by (simp add: generateLocalEmbedding_def Let_def length_normalize)

lemma length_alignVectorDimension: "0 < d \<Longrightarrow> length (alignVectorDimension v d) = d"
  by (simp add: alignVectorDimension_def)

lemma alignVectorDimension_cases:
  "0 < d \<Longrightarrow> alignVectorDimension v d = take d v @ replicate (d - length v) 0"
  by (simp add: alignVectorDimension_def)

lemma generateEmbedding_empty:
  "collapseSpaces (trim t) = [] \<Longrightarrow> generateEmbedding env cache t = (Inr [], cache)"
  by (simp add: generateEmbedding_def)

lemma generateEmbedding_fresh_length:
  assumes "collapseSpaces (trim t) \<noteq> []"
    and "cache (cacheKeyFor (emb_md5 env) (collapseSpaces (trim t)) (emb_provider env) (emb_model env)) = None"
    and "0 < resolveTargetDimension (emb_dimension env)"
    and "generateEmbedding env cache t = (Inr v, cache')"
  shows "length v = resolveTargetDimension (emb_dimension env)"
  using assms
  by (auto simp: generateEmbedding_def Let_def length_alignVectorDimension
           split: sum.splits EmbeddingProvider.splits)

lemma generateEmbedding_local_fresh:
  assumes "collapseSpaces (trim t) \<noteq> []"
    and "cache (cacheKeyFor (emb_md5 env) (collapseSpaces (trim t)) (emb_provider env) (emb_model env)) = None"
    and "emb_provider env = local_provider"
  shows "\<exists>v. fst (generateEmbedding env cache t) = Inr v
             \<and> (0 < resolveTargetDimension (emb_dimension env)
                  \<longrightarrow> length v = resolveTargetDimension (emb_dimension env))"
  using assms
  by (auto simp: generateEmbedding_def Let_def length_alignVectorDimension)

lemma generateEmbedding_cached:
  "collapseSpaces (trim t) \<noteq> [] \<Longrightarrow>
   cache (cacheKeyFor (emb_md5 env) (collapseSpaces (trim t)) (emb_provider env) (emb_model env)) = Some w \<Longrightarrow>
   generateEmbedding env cache t = (Inr w, cache)"
  by (simp add: generateEmbedding_def Let_def)

lemma resolveTargetDimension_4: "resolveTargetDimension (Some (Finite 4)) = 4"
  by (simp add: resolveTargetDimension_def)

lemma norm_tea: "collapseSpaces (trim ''tea'') = ''tea''"
  by code_simp

text \<open>
  C7, at the input on which the code fails it. The configured dimension is 4 and the loaded
  cache holds a vector of length 3 under the key of the text (written by an earlier run
  with another dimension; the key does not hold the dimension). \<open>generateEmbedding\<close>
  returns the cached vector as it is, of length 3: the cache hit returns before the
  alignment that the other path applies.
\<close>

theorem generateEmbedding_stale_cache_entry:
  "resolveTargetDimension (emb_dimension (sampleEmbeddingEnv\<lparr>emb_dimension := Some (Finite 4)\<rparr>)) = 4
   \<and> collapseSpaces (trim ''tea'') = ''tea''
   \<and> fst (generateEmbedding (sampleEmbeddingEnv\<lparr>emb_dimension := Some (Finite 4)\<rparr>)
             [''local|local-hash-768|tea'' \<mapsto> [1, 2, 3]] ''tea'') = Inr [1, 2, 3]
   \<and> length [1, 2, 3 :: real] \<noteq> 4"
  by (simp add: generateEmbedding_def Let_def norm_tea cacheKeyFor_def sampleEmbeddingEnv_def
        providerName_def resolveTargetDimension_def)

section \<open>Properties of the context snapshots\<close>

lemma pickFrom_skip:
  "sz \<le> k \<Longrightarrow> k \<le> length results + 1 \<Longrightarrow>
   \<forall>j. sz \<le> j \<and> j < k \<longrightarrow> \<not> isSafe (snapshotContext (take j results)) \<Longrightarrow>
   pickFrom results full sz = pickFrom results full k"
proof (induction "k - sz" arbitrary: sz)
  case 0
  then show ?case by simp
next
  case (Suc d)
  then have lt: "sz < k" and ns: "\<not> isSafe (snapshotContext (take sz results))" by auto
  have "pickFrom results full sz = pickFrom results full (sz + 1)"
    using lt Suc(4) ns by (simp add: pickFrom.simps[of results full sz] Let_def)
  also have "\<dots> = pickFrom results full k"
    using Suc(1)[of "sz + 1"] Suc(2) lt Suc(4) Suc(5) by auto
  finally show ?case .
qed

lemma pickFrom_found:
  "1 \<le> k \<Longrightarrow> k \<le> length results \<Longrightarrow> isSafe (snapshotContext (take k results)) \<Longrightarrow>
   \<forall>j. 1 \<le> j \<and> j < k \<longrightarrow> \<not> isSafe (snapshotContext (take j results)) \<Longrightarrow>
   pickFrom results full 1 = snapshotContext (take k results)"
  using pickFrom_skip[of 1 k results full]
  by (simp add: pickFrom.simps[of results full k] Let_def)

lemma pickFrom_none:
  "\<forall>j. 1 \<le> j \<and> j \<le> length results \<longrightarrow> \<not> isSafe (snapshotContext (take j results)) \<Longrightarrow>
   pickFrom results full 1 = full"
  using pickFrom_skip[of 1 "length results + 1" results full]
  by (simp add: pickFrom.simps[of results full "Suc (length results)"] less_Suc_eq_le)

lemma raw_a: "buildRawContext [''a''] = ''[1] a''"
  by code_simp

lemma raw_ssn: "buildRawContext [''123-45-6789''] = ''[1] 123-45-6789''"
  by code_simp

lemma raw_a_ssn: "buildRawContext [''a'', ''123-45-6789''] = ''[1] a\<newline>[2] 123-45-6789''"
  by code_simp

lemma pipeline_line_ssn:
  "runPrivacyPipeline ''[1] 123-45-6789'' =
     \<lparr>cleanedText = ''[1] [REDACTED_SSN]'', redactionCount = 1, riskLevel = HIGH,
      confidence = HIGH, syntheticMap = [''123-45-6789'' \<mapsto> ''[REDACTED_SSN]'']\<rparr>"
  by (simp add: pipeline_eval)

lemma pipeline_lines_a_ssn:
  "runPrivacyPipeline ''[1] a\<newline>[2] 123-45-6789'' =
     \<lparr>cleanedText = ''[1] a\<newline>[2] [REDACTED_SSN]'', redactionCount = 1, riskLevel = HIGH,
      confidence = HIGH, syntheticMap = [''123-45-6789'' \<mapsto> ''[REDACTED_SSN]'']\<rparr>"
  by (simp add: pipeline_eval)

lemma snapshot_a:
  "snapshotContext [''a''] =
     \<lparr>cleanedText = ''[1] a'', redactionCount = 0, riskLevel = LOW, confidence = HIGH,
      rawContext = ''[1] a'', resultCount = 1\<rparr>"
  by (simp add: snapshotContext_def raw_a pipeline_line_a Let_def)

lemma snapshot_ssn:
  "snapshotContext [''123-45-6789''] =
     \<lparr>cleanedText = ''[1] [REDACTED_SSN]'', redactionCount = 1, riskLevel = HIGH,
      confidence = HIGH, rawContext = ''[1] 123-45-6789'', resultCount = 1\<rparr>"
  by (simp add: snapshotContext_def raw_ssn pipeline_line_ssn Let_def)

lemma snapshot_a_ssn:
  "snapshotContext [''a'', ''123-45-6789''] =
     \<lparr>cleanedText = ''[1] a\<newline>[2] [REDACTED_SSN]'', redactionCount = 1, riskLevel = HIGH,
      confidence = HIGH, rawContext = ''[1] a\<newline>[2] 123-45-6789'', resultCount = 2\<rparr>"
  by (simp add: snapshotContext_def raw_a_ssn pipeline_lines_a_ssn Let_def)

text \<open>
  C6. \<open>pickSafeContext\<close> returns the snapshot of the full list if that snapshot is safe
  (confidence HIGH and risk LOW). Otherwise it returns the snapshot of the prefix of length
  \<open>k\<close>, for the least \<open>k\<close> from 1 to the length of the list whose prefix has a safe snapshot.
  If no such prefix exists it returns the snapshot of the full list.
\<close>

theorem pickSafeContext_first_safe_prefix:
  "(isSafe (snapshotContext results) \<longrightarrow> pickSafeContext results = snapshotContext results)
   \<and> (\<not> isSafe (snapshotContext results) \<and> 1 \<le> k \<and> k \<le> length results
        \<and> isSafe (snapshotContext (take k results))
        \<and> (\<forall>j. 1 \<le> j \<and> j < k \<longrightarrow> \<not> isSafe (snapshotContext (take j results)))
      \<longrightarrow> pickSafeContext results = snapshotContext (take k results))
   \<and> (\<not> isSafe (snapshotContext results)
        \<and> (\<forall>j. 1 \<le> j \<and> j \<le> length results \<longrightarrow> \<not> isSafe (snapshotContext (take j results)))
      \<longrightarrow> pickSafeContext results = snapshotContext results)"
  using pickFrom_found[of k results "snapshotContext results"]
    pickFrom_none[of results "snapshotContext results"]
  by (simp add: pickSafeContext_def Let_def)

theorem pickSafeContext_first_safe_prefix_witness:
  "isSafe (snapshotContext [''a'']) \<and> pickSafeContext [''a''] = snapshotContext [''a'']
   \<and> \<not> isSafe (snapshotContext [''a'', ''123-45-6789''])
   \<and> (1::nat) \<le> 1 \<and> 1 \<le> length [''a'', ''123-45-6789'']
   \<and> isSafe (snapshotContext (take 1 [''a'', ''123-45-6789'']))
   \<and> pickSafeContext [''a'', ''123-45-6789''] = snapshotContext [''a'']
   \<and> \<not> isSafe (snapshotContext [''123-45-6789''])
   \<and> \<not> isSafe (snapshotContext (take 1 [''123-45-6789'']))
   \<and> pickSafeContext [''123-45-6789''] = snapshotContext [''123-45-6789'']"
proof -
  have s1: "isSafe (snapshotContext [''a''])"
    by (simp add: snapshot_a isSafe_def)
  have s2: "\<not> isSafe (snapshotContext [''a'', ''123-45-6789''])"
    by (simp add: snapshot_a_ssn isSafe_def)
  have s3: "\<not> isSafe (snapshotContext [''123-45-6789''])"
    by (simp add: snapshot_ssn isSafe_def)
  have s4: "\<forall>j. 1 \<le> j \<and> j \<le> length [''123-45-6789''] \<longrightarrow>
          \<not> isSafe (snapshotContext (take j [''123-45-6789'']))"
  proof (intro allI impI)
    fix j :: nat assume "1 \<le> j \<and> j \<le> length [''123-45-6789'']"
    then have "j = 1" by simp
    then show "\<not> isSafe (snapshotContext (take j [''123-45-6789'']))" using s3 by simp
  qed
  have t1: "take 1 [''a'', ''123-45-6789''] = [''a'']" by simp
  show ?thesis
    using s1 s2 s3 s4 t1
      pickSafeContext_first_safe_prefix[of "[''a'']" 1]
      pickSafeContext_first_safe_prefix[of "[''a'', ''123-45-6789'']" 1]
      pickSafeContext_first_safe_prefix[of "[''123-45-6789'']" 1]
    by simp
qed

section \<open>Properties of the tool calls\<close>



lemma Level_not_LOW: "(l \<noteq> LOW) = (l = HIGH)"
  by (cases l) auto

lemma generateEmbedding_blank:
  "\<forall>c\<in>set s. isSpace c \<Longrightarrow> generateEmbedding env cache s = (Inr [], cache)"
  by (simp add: generateEmbedding_def trim_blank)

lemma saveRecord_blank:
  "\<forall>c\<in>set s. isSpace c \<Longrightarrow>
   saveRecord env (cache, tables) tableName s src cat = (Inr (), cache, tables)"
  by (simp add: saveRecord_def generateEmbedding_blank)


text \<open>
  C10. A \<open>save_memory\<close> call whose fact is a non-empty string of whitespace answers
  \<open>MEMORY_SAVED: Saved fact to category '...'.\<close> without the error flag, and leaves the
  cache and the tables as they were: the embedding of the fact is the empty vector and
  \<open>saveRecord\<close> returns before it writes.
\<close>

theorem saveMemory_whitespace_fact:
  "factText \<noteq> [] \<Longrightarrow> \<forall>c\<in>set factText. isSpace c \<Longrightarrow>
   tr_text (fst (saveMemory env st (Some factText) categoryArg)) =
     ''MEMORY_SAVED: Saved fact to category '' @ [CHR 0x27] @ orElse categoryArg ''general''
       @ [CHR 0x27] @ ''.''
   \<and> startsWith (tr_text (fst (saveMemory env st (Some factText) categoryArg))) ''MEMORY_SAVED''
   \<and> \<not> tr_isError (fst (saveMemory env st (Some factText) categoryArg))
   \<and> snd (snd (saveMemory env st (Some factText) categoryArg)) = st
   \<and> fst (generateEmbedding (repo_embedding (srv_repo env)) (st_cache st) factText) = Inr []
   \<and> saveRecord (srv_repo env) (st_cache st, st_tables st) FACTS_TABLE factText
        (Some ''user_fact'') (Some (orElse categoryArg ''general''))
      = (Inr (), st_cache st, st_tables st)"
  by (simp add: saveMemory_def saveUserFact_def saveRecord_blank generateEmbedding_blank
        orElse_def Let_def)

theorem saveMemory_whitespace_fact_witness:
  "[CHR '' '', CHR 0x09] \<noteq> [] \<and> isSpace CHR '' '' \<and> isSpace (CHR 0x09)
   \<and> tr_text (fst (saveMemory sampleServerEnv (sampleState ''a'' Map.empty)
                      (Some [CHR '' '', CHR 0x09]) None))
       = ''MEMORY_SAVED: Saved fact to category '' @ [CHR 0x27] @ ''general'' @ [CHR 0x27] @ ''.''
   \<and> \<not> tr_isError (fst (saveMemory sampleServerEnv (sampleState ''a'' Map.empty)
                           (Some [CHR '' '', CHR 0x09]) None))
   \<and> snd (snd (saveMemory sampleServerEnv (sampleState ''a'' Map.empty)
                  (Some [CHR '' '', CHR 0x09]) None)) = sampleState ''a'' Map.empty"
proof -
  have h: "\<forall>c\<in>set [CHR '' '', CHR 0x09]. isSpace c"
    by (simp add: isSpace_bits)
  show ?thesis
    using h saveMemory_whitespace_fact[of "[CHR '' '', CHR 0x09]" sampleServerEnv
              "sampleState ''a'' Map.empty" None]
    by (simp add: orElse_def)
qed


lemma sample_dimension: "resolveTargetDimension (emb_dimension sampleEmbeddingEnv) = 768"
  by (simp add: resolveTargetDimension_def sampleEmbeddingEnv_def DEFAULT_LOCAL_DIMENSION_def)


lemma scope_default: "resolveMemoryQueryScope None = hybrid"
  by code_simp

lemma strict_default: "isStrictQueryMatchEnabled None"
  by code_simp



lemma table_names: "DOCUMENTS_TABLE \<noteq> FACTS_TABLE"
  by (simp add: DOCUMENTS_TABLE_def FACTS_TABLE_def)




















section \<open>Properties of the answer orchestrator\<close>

lemma startsWith_refl: "startsWith s s"
  by (induction s) simp_all

lemma includesStr_refl: "includesStr s s"
  by (cases s) (simp_all add: startsWith_refl)

lemma contextLines_member:
  "l \<in> set (contextLines c) \<Longrightarrow> \<exists>x\<in>set (splitOn CHR 0x0A c). l = trim (stripIndex x)"
  by (auto simp: contextLines_def)

lemma bestLineLoop_result:
  "bestLineLoop qt pin lines (bl, bs) = (bl', bs') \<Longrightarrow>
   bs \<le> bs' \<and> (\<forall>l\<in>set lines. int (lineScore qt pin l) \<le> bs')
   \<and> ((bl' = bl \<and> bs' = bs) \<or> (\<exists>l\<in>set lines. bl' = Some l \<and> bs' = int (lineScore qt pin l)))"
proof (induction lines arbitrary: bl bs)
  case Nil
  then show ?case by simp
next
  case (Cons line lines)
  show ?case
  proof (cases "int (lineScore qt pin line) > bs")
    case True
    with Cons(2) have "bestLineLoop qt pin lines (Some line, int (lineScore qt pin line)) = (bl', bs')"
      by (simp add: Let_def)
    from Cons(1)[OF this] True show ?thesis by auto
  next
    case False
    with Cons(2) have "bestLineLoop qt pin lines (bl, bs) = (bl', bs')"
      by (simp add: Let_def)
    from Cons(1)[OF this] False show ?thesis by auto
  qed
qed

lemma pickExtractiveLine_member:
  assumes "pickExtractiveLine c q = Some l"
  shows "l \<in> set (contextLines c)"
proof (cases "contextLines c = []")
  case True
  with assms show ?thesis by (simp add: pickExtractiveLine_def)
next
  case ne: False
  then have hd: "hd (contextLines c) \<in> set (contextLines c)" by simp
  show ?thesis
  proof (cases "tokenize q = []")
    case True
    show ?thesis
    proof (cases "detectPersonalIntent q")
      case None
      with assms ne True hd show ?thesis by (simp add: pickExtractiveLine_def Let_def)
    next
      case (Some intent)
      show ?thesis
      proof (cases "find (\<lambda>line. lineMatchesPersonalIntent line intent) (contextLines c)")
        case None
        with assms ne True hd Some show ?thesis by (simp add: pickExtractiveLine_def Let_def)
      next
        case (Some il)
        then have "il \<in> set (contextLines c)"
          by (auto simp: find_Some_iff)
        with assms ne True Some \<open>detectPersonalIntent q = Some intent\<close> show ?thesis
          by (simp add: pickExtractiveLine_def Let_def)
      qed
    qed
  next
    case False
    obtain bl bs where b: "bestLineLoop (tokenize q) (detectPersonalIntent q) (contextLines c) (None, -1) = (bl, bs)"
      by (cases "bestLineLoop (tokenize q) (detectPersonalIntent q) (contextLines c) (None, -1)")
    from assms ne False b have "bl = Some l" and "\<not> bs \<le> 0"
      by (auto simp: pickExtractiveLine_def Let_def split: if_splits)
    with bestLineLoop_result[OF b] show ?thesis by auto
  qed
qed

lemma pickExtractiveLine_scored:
  assumes "tokenize q \<noteq> []"
  shows "(pickExtractiveLine c q = None) =
         (\<forall>line\<in>set (contextLines c). lineScore (tokenize q) (detectPersonalIntent q) line = 0)"
proof (cases "contextLines c = []")
  case True
  then show ?thesis by (simp add: pickExtractiveLine_def)
next
  case ne: False
  obtain bl bs where b: "bestLineLoop (tokenize q) (detectPersonalIntent q) (contextLines c) (None, -1) = (bl, bs)"
    by (cases "bestLineLoop (tokenize q) (detectPersonalIntent q) (contextLines c) (None, -1)")
  have p: "pickExtractiveLine c q = (if bs \<le> 0 then None else bl)"
    using assms ne b by (simp add: pickExtractiveLine_def Let_def)
  note r = bestLineLoop_result[OF b]
  show ?thesis
  proof (cases "bs \<le> 0")
    case True
    with r have "\<forall>l\<in>set (contextLines c). lineScore (tokenize q) (detectPersonalIntent q) l = 0"
      by auto
    with p True show ?thesis by simp
  next
    case False
    with r obtain l where l: "l \<in> set (contextLines c)" "bl = Some l"
      "bs = int (lineScore (tokenize q) (detectPersonalIntent q) l)" by auto
    with False have "lineScore (tokenize q) (detectPersonalIntent q) l \<noteq> 0" by simp
    with l p False show ?thesis by auto
  qed
qed

lemma pickExtractiveLine_unscored:
  "tokenize q = [] \<Longrightarrow> contextLines c \<noteq> [] \<Longrightarrow> pickExtractiveLine c q \<noteq> None"
  by (auto simp: pickExtractiveLine_def Let_def split: option.splits)

lemma picked_matches:
  assumes "pickExtractiveLine c q = Some l"
  shows "\<exists>x\<in>set (splitOn CHR 0x0A c). answerMatchesLine modeVar l (normalizeLine (stripIndex x))"
proof -
  from pickExtractiveLine_member[OF assms] contextLines_member
  obtain x where x: "x \<in> set (splitOn CHR 0x0A c)" and l: "l = trim (stripIndex x)" by blast
  have "normalizeLine l = normalizeLine (stripIndex x)" by (simp add: l normalizeLine_trim)
  then have "answerMatchesLine modeVar l (normalizeLine (stripIndex x))"
    by (simp add: answerMatchesLine_def includesStr_refl)
  with x show ?thesis by blast
qed

lemma grounded_matches:
  assumes "isGroundedAnswer modeVar a c"
  shows "\<exists>x\<in>set (splitOn CHR 0x0A c). answerMatchesLine modeVar a (normalizeLine (stripIndex x))"
proof -
  from assms have "list_ex (\<lambda>line. answerMatchesLine modeVar a line) (groundingLines c)"
    by (auto simp: isGroundedAnswer_def Let_def answerMatchesLine_def orElse_def list_ex_iff
             split: if_splits option.splits)
  then show ?thesis
    by (auto simp: list_ex_iff groundingLines_def)
qed

lemma enforceGrounding_unchanged:
  assumes "enforceGrounding modeVar a c q = a"
  shows "a = FALLBACK_ANSWER
         \<or> (\<exists>x\<in>set (splitOn CHR 0x0A c). answerMatchesLine modeVar a (normalizeLine (stripIndex x)))"
proof (cases "trim a \<noteq> [] \<and> trim a \<noteq> FALLBACK_ANSWER \<and> isGroundedAnswer modeVar (trim a) c")
  case True
  with assms have "trim a = a" by (simp add: enforceGrounding_def Let_def)
  with True grounded_matches[of modeVar a c] show ?thesis by simp
next
  case False
  with assms have r: "orElse (pickExtractiveLine c q) FALLBACK_ANSWER = a"
    by (auto simp: enforceGrounding_def Let_def split: if_splits)
  show ?thesis
  proof (cases "pickExtractiveLine c q")
    case None
    with r show ?thesis by (simp add: orElse_def)
  next
    case (Some l)
    with r have "l = a" by (simp add: orElse_def)
    with picked_matches[OF Some, of modeVar] show ?thesis by simp
  qed
qed

lemma fallback_trimmed: "trim FALLBACK_ANSWER = FALLBACK_ANSWER"
  unfolding FALLBACK_ANSWER_def by code_simp

lemma lines_tea: "splitOn CHR 0x0A ''[1] User likes tea.'' = [''[1] User likes tea.'']"
  by code_simp

lemma pick_tea_coffee: "pickExtractiveLine ''[1] User likes tea.'' ''coffee'' = None"
  by code_simp

lemma pick_tea_tea: "pickExtractiveLine ''[1] User likes tea.'' ''tea'' = Some ''User likes tea.''"
  by code_simp

lemma fallback_not_in_tea:
  "\<not> answerMatchesLine None FALLBACK_ANSWER (normalizeLine (stripIndex ''[1] User likes tea.''))"
  unfolding FALLBACK_ANSWER_def by code_simp

lemma fallback_not_in_tea_exact:
  "\<not> answerMatchesLine (Some ''exact'') FALLBACK_ANSWER (normalizeLine (stripIndex ''[1] User likes tea.''))"
  unfolding FALLBACK_ANSWER_def by code_simp

lemma contextLines_tea: "contextLines ''[1] User likes tea.'' = [''User likes tea.'']"
  by code_simp

lemma score_tea_hi:
  "lineScore (tokenize ''hi'') (detectPersonalIntent ''hi'') ''User likes tea.'' = 0"
  by code_simp

lemma enforce_coffee_hi:
  "enforceGrounding None ''User likes coffee.'' ''[1] User likes tea.'' ''hi'' = ''User likes tea.''"
  by code_simp

lemma not_fallback: "''User likes tea.'' \<noteq> FALLBACK_ANSWER"
  by (simp add: FALLBACK_ANSWER_def)

lemma bestLineLoop_same_score:
  "bestLineLoop qt pin lines (bl, bs) = (bl', bs') \<Longrightarrow> bs' = bs \<Longrightarrow> bl' = bl"
proof (induction lines arbitrary: bl bs)
  case Nil
  then show ?case by simp
next
  case (Cons line lines)
  show ?case
  proof (cases "int (lineScore qt pin line) > bs")
    case True
    with Cons(2) have "bestLineLoop qt pin lines (Some line, int (lineScore qt pin line)) = (bl', bs')"
      by (simp add: Let_def)
    from bestLineLoop_result[OF this] True Cons(3) show ?thesis by simp
  next
    case False
    with Cons(2) have "bestLineLoop qt pin lines (bl, bs) = (bl', bs')"
      by (simp add: Let_def)
    from Cons(1)[OF this Cons(3)] show ?thesis .
  qed
qed

lemma bestLineLoop_first_max:
  "bestLineLoop qt pin lines (bl, bs) = (bl', bs') \<Longrightarrow> bs < bs' \<Longrightarrow>
   \<exists>pre l post. lines = pre @ l # post \<and> bl' = Some l \<and> bs' = int (lineScore qt pin l)
     \<and> (\<forall>x\<in>set pre. int (lineScore qt pin x) < bs')
     \<and> (\<forall>x\<in>set post. int (lineScore qt pin x) \<le> bs')"
proof (induction lines arbitrary: bl bs)
  case Nil
  then show ?case by simp
next
  case (Cons line lines)
  show ?case
  proof (cases "int (lineScore qt pin line) > bs")
    case True
    with Cons(2) have r: "bestLineLoop qt pin lines (Some line, int (lineScore qt pin line)) = (bl', bs')"
      by (simp add: Let_def)
    note res = bestLineLoop_result[OF r]
    show ?thesis
    proof (cases "int (lineScore qt pin line) < bs'")
      case True
      from Cons(1)[OF r True] obtain pre l post where
        d: "lines = pre @ l # post" "bl' = Some l" "bs' = int (lineScore qt pin l)"
        "\<forall>x\<in>set pre. int (lineScore qt pin x) < bs'"
        "\<forall>x\<in>set post. int (lineScore qt pin x) \<le> bs'" by blast
      have "line # lines = (line # pre) @ l # post" using d(1) by simp
      moreover have "\<forall>x\<in>set (line # pre). int (lineScore qt pin x) < bs'"
        using d(4) True by simp
      ultimately show ?thesis using d(2,3,5) by blast
    next
      case False
      with res have e: "bs' = int (lineScore qt pin line)" by simp
      from bestLineLoop_same_score[OF r e] have "bl' = Some line" .
      moreover have "line # lines = [] @ line # lines" by simp
      moreover have "\<forall>x\<in>set lines. int (lineScore qt pin x) \<le> bs'" using res by simp
      ultimately show ?thesis using e by (metis empty_iff empty_set)
    qed
  next
    case False
    with Cons(2) have r: "bestLineLoop qt pin lines (bl, bs) = (bl', bs')"
      by (simp add: Let_def)
    from Cons(1)[OF r Cons(3)] obtain pre l post where
      d: "lines = pre @ l # post" "bl' = Some l" "bs' = int (lineScore qt pin l)"
      "\<forall>x\<in>set pre. int (lineScore qt pin x) < bs'"
      "\<forall>x\<in>set post. int (lineScore qt pin x) \<le> bs'" by blast
    have "line # lines = (line # pre) @ l # post" using d(1) by simp
    moreover have "\<forall>x\<in>set (line # pre). int (lineScore qt pin x) < bs'"
      using d(4) False Cons(3) by simp
    ultimately show ?thesis using d(2,3,5) by blast
  qed
qed

lemma bestLineLoop_keep:
  "\<forall>x\<in>set lines. int (lineScore qt pin x) \<le> bs \<Longrightarrow>
   bestLineLoop qt pin lines (bl, bs) = (bl, bs)"
  by (induction lines) (simp_all add: Let_def)

lemma bestLineLoop_below:
  "\<forall>x\<in>set lines. int (lineScore qt pin x) < s \<Longrightarrow> bs < s \<Longrightarrow>
   snd (bestLineLoop qt pin lines (bl, bs)) < s"
  by (induction lines arbitrary: bl bs) (simp_all add: Let_def)

lemma bestLineLoop_append:
  "bestLineLoop qt pin (xs @ ys) b = bestLineLoop qt pin ys (bestLineLoop qt pin xs b)"
proof (induction xs arbitrary: b)
  case Nil
  then show ?case by simp
next
  case (Cons x xs)
  obtain bl bs where b: "b = (bl, bs)" by (cases b)
  show ?case unfolding b by (simp add: Let_def Cons)
qed

lemma bestLineLoop_picks_first_max:
  assumes "\<forall>x\<in>set pre. lineScore qt pin x < lineScore qt pin l"
    and "\<forall>x\<in>set post. lineScore qt pin x \<le> lineScore qt pin l"
    and "bs < int (lineScore qt pin l)"
  shows "bestLineLoop qt pin (pre @ l # post) (bl, bs) = (Some l, int (lineScore qt pin l))"
proof -
  obtain bl1 bs1 where p: "bestLineLoop qt pin pre (bl, bs) = (bl1, bs1)"
    by (cases "bestLineLoop qt pin pre (bl, bs)")
  have "bs1 < int (lineScore qt pin l)"
    using bestLineLoop_below[of pre qt pin "int (lineScore qt pin l)" bs bl] assms(1,3) p
    by simp
  then have "bestLineLoop qt pin (l # post) (bl1, bs1)
               = bestLineLoop qt pin post (Some l, int (lineScore qt pin l))"
    by (simp add: Let_def)
  also have "\<dots> = (Some l, int (lineScore qt pin l))"
    using assms(2) by (intro bestLineLoop_keep) simp
  finally show ?thesis by (simp add: bestLineLoop_append p)
qed

lemma pickExtractiveLine_first_max:
  assumes "tokenize q \<noteq> []"
  shows "pickExtractiveLine c q = Some l \<longleftrightarrow>
     (\<exists>pre post. contextLines c = pre @ l # post
        \<and> 0 < lineScore (tokenize q) (detectPersonalIntent q) l
        \<and> (\<forall>x\<in>set pre. lineScore (tokenize q) (detectPersonalIntent q) x
                           < lineScore (tokenize q) (detectPersonalIntent q) l)
        \<and> (\<forall>x\<in>set post. lineScore (tokenize q) (detectPersonalIntent q) x
                           \<le> lineScore (tokenize q) (detectPersonalIntent q) l))"
  (is "?L \<longleftrightarrow> ?R")
proof
  assume L: ?L
  then have ne: "contextLines c \<noteq> []"
    by (auto simp: pickExtractiveLine_def)
  obtain bl bs where b: "bestLineLoop (tokenize q) (detectPersonalIntent q) (contextLines c) (None, -1) = (bl, bs)"
    by (cases "bestLineLoop (tokenize q) (detectPersonalIntent q) (contextLines c) (None, -1)")
  from L ne assms b have bl: "bl = Some l" and bs: "0 < bs"
    by (auto simp: pickExtractiveLine_def Let_def split: if_splits)
  from bs have "-1 < bs" by simp
  from bestLineLoop_first_max[OF b this] bl bs show ?R
    by (auto; metis of_nat_less_iff of_nat_le_iff)
next
  assume ?R
  then obtain pre post where d: "contextLines c = pre @ l # post"
    "0 < lineScore (tokenize q) (detectPersonalIntent q) l"
    "\<forall>x\<in>set pre. lineScore (tokenize q) (detectPersonalIntent q) x
                           < lineScore (tokenize q) (detectPersonalIntent q) l"
    "\<forall>x\<in>set post. lineScore (tokenize q) (detectPersonalIntent q) x
                           \<le> lineScore (tokenize q) (detectPersonalIntent q) l"
    by blast
  have "bestLineLoop (tokenize q) (detectPersonalIntent q) (contextLines c) (None, -1)
          = (Some l, int (lineScore (tokenize q) (detectPersonalIntent q) l))"
    unfolding d(1) using d(3,4) by (intro bestLineLoop_picks_first_max) simp_all
  with d(1,2) assms show ?L
    by (simp add: pickExtractiveLine_def Let_def)
qed

lemma pickExtractiveLine_no_tokens:
  assumes "tokenize q = []" and "contextLines c \<noteq> []"
  shows "pickExtractiveLine c q =
     Some (case detectPersonalIntent q of
             None \<Rightarrow> hd (contextLines c)
           | Some intent \<Rightarrow>
               (case find (\<lambda>line. lineMatchesPersonalIntent line intent) (contextLines c) of
                  None \<Rightarrow> hd (contextLines c)
                | Some intentLine \<Rightarrow> intentLine))"
  using assms by (simp add: pickExtractiveLine_def Let_def split: option.splits)

lemma pickExtractiveLine_no_lines:
  "contextLines c = [] \<Longrightarrow> pickExtractiveLine c q = None"
  by (simp add: pickExtractiveLine_def)

lemma isTokenMatch_prefix:
  "isTokenMatch queryToken lineToken \<longleftrightarrow>
   (lineToken = queryToken \<or> prefix queryToken lineToken \<or> prefix lineToken queryToken)"
  by (simp add: isTokenMatch_def startsWith_prefix)

lemma lineScore_counts:
  "lineScore queryTokens personalIntent line =
     length (filter (\<lambda>token. \<exists>lineToken\<in>set (tokenize line).
                        prefix token lineToken \<or> prefix lineToken token) queryTokens)
     + (case personalIntent of
          None \<Rightarrow> 0
        | Some intent \<Rightarrow> if lineMatchesPersonalIntent line intent then 2 else 0)"
proof -
  have "(\<lambda>token. list_ex (isTokenMatch token) (tokenize line))
      = (\<lambda>token. \<exists>lineToken\<in>set (tokenize line). prefix token lineToken \<or> prefix lineToken token)"
    by (auto simp: fun_eq_iff list_ex_iff isTokenMatch_prefix)
  then show ?thesis
    by (simp add: lineScore_def Let_def split: option.splits)
qed

lemma isGroundedAnswer_iff:
  "isGroundedAnswer modeVar a c \<longleftrightarrow>
     6 \<le> length (normalizeLine a) \<and> regexTest alnum_run_regex (normalizeLine a)
     \<and> (\<exists>x\<in>set (splitOn CHR 0x0A c).
           8 \<le> length (normalizeLine (stripIndex x))
         \<and> answerMatchesLine modeVar a (normalizeLine (stripIndex x)))"
  apply (auto simp: isGroundedAnswer_def Let_def answerMatchesLine_def orElse_def list_ex_iff
        groundingLines_def split: option.splits)
   apply (erule rev_image_eqI, simp)+
  done


text \<open>
  C5, as stated, fails. The answer is the fallback string, the context has the one line
  \<open>User likes tea.\<close> and the query is \<open>coffee\<close>, which no line matches.
  \<open>enforceGrounding\<close> returns the answer unchanged, in both modes, and the answer is
  neither equal to nor part of the line of the context. And with the answer
  \<open>User likes coffee.\<close>, which is rejected, and the query \<open>hi\<close>, which has no token, the
  only line of the context scores zero and is the result all the same, not the fallback
  string.
\<close>

theorem enforceGrounding_returns_fallback_unchanged:
  "enforceGrounding None FALLBACK_ANSWER ''[1] User likes tea.'' ''coffee'' = FALLBACK_ANSWER
   \<and> splitOn CHR 0x0A ''[1] User likes tea.'' = [''[1] User likes tea.'']
   \<and> \<not> answerMatchesLine None FALLBACK_ANSWER
         (normalizeLine (stripIndex ''[1] User likes tea.''))
   \<and> enforceGrounding (Some ''exact'') FALLBACK_ANSWER ''[1] User likes tea.'' ''coffee''
       = FALLBACK_ANSWER
   \<and> \<not> answerMatchesLine (Some ''exact'') FALLBACK_ANSWER
         (normalizeLine (stripIndex ''[1] User likes tea.''))
   \<and> enforceGrounding None ''User likes coffee.'' ''[1] User likes tea.'' ''hi''
       = ''User likes tea.''
   \<and> ''User likes tea.'' \<noteq> FALLBACK_ANSWER
   \<and> contextLines ''[1] User likes tea.'' = [''User likes tea.'']
   \<and> lineScore (tokenize ''hi'') (detectPersonalIntent ''hi'') ''User likes tea.'' = 0"
proof -
  have a: "enforceGrounding None FALLBACK_ANSWER ''[1] User likes tea.'' ''coffee'' = FALLBACK_ANSWER"
    "enforceGrounding (Some ''exact'') FALLBACK_ANSWER ''[1] User likes tea.'' ''coffee''
       = FALLBACK_ANSWER"
    by (simp_all add: enforceGrounding_def Let_def fallback_trimmed pick_tea_coffee orElse_def)
  from a(1) lines_tea fallback_not_in_tea a(2) fallback_not_in_tea_exact enforce_coffee_hi
    not_fallback contextLines_tea score_tea_hi
  show ?thesis by (intro conjI)
qed

text \<open>
  C5, amended. If \<open>enforceGrounding\<close> returns the answer unchanged, the answer is the
  fallback string, or its normalized form is equal to (mode \<open>exact\<close>) or part of (any other
  mode) the normalized form of some line of the context. If the trimmed answer is empty,
  is the fallback string or is not grounded, the result is the line that
  \<open>pickExtractiveLine\<close> picks, or the fallback string if it picks none; otherwise the result
  is the trimmed answer. An answer is grounded if its normalized form has at least 6
  characters, among them three letters or digits in a row, and is equal to or part of the
  normalized form, of at least 8 characters, of a line. A picked line is a line of the
  context, and none is picked from a context without lines. If the query has a token
  (three or more characters), the line picked is the first of the lines with the highest
  score, and none is picked if every line scores zero; the score of a line is the number
  of query tokens that are a prefix of a token of the line or have one as a prefix, plus 2
  if the line has the shape of the personal intent of the query. If the query has no token,
  the line picked is the first line with the shape of the personal intent of the query, and
  the first line if there is no such line or no intent; it is picked without scoring.
\<close>

theorem enforceGrounding_outcomes:
  "(enforceGrounding modeVar a c q = a \<longrightarrow>
      a = FALLBACK_ANSWER
      \<or> (\<exists>x\<in>set (splitOn CHR 0x0A c).
             answerMatchesLine modeVar a (normalizeLine (stripIndex x))))
   \<and> (trim a = [] \<or> trim a = FALLBACK_ANSWER \<or> \<not> isGroundedAnswer modeVar (trim a) c \<longrightarrow>
        enforceGrounding modeVar a c q = orElse (pickExtractiveLine c q) FALLBACK_ANSWER)
   \<and> (trim a \<noteq> [] \<and> trim a \<noteq> FALLBACK_ANSWER \<and> isGroundedAnswer modeVar (trim a) c \<longrightarrow>
        enforceGrounding modeVar a c q = trim a)
   \<and> (isGroundedAnswer modeVar a c \<longleftrightarrow>
        6 \<le> length (normalizeLine a) \<and> regexTest alnum_run_regex (normalizeLine a)
        \<and> (\<exists>x\<in>set (splitOn CHR 0x0A c).
              8 \<le> length (normalizeLine (stripIndex x))
            \<and> answerMatchesLine modeVar a (normalizeLine (stripIndex x))))
   \<and> (pickExtractiveLine c q = None \<longrightarrow>
        orElse (pickExtractiveLine c q) FALLBACK_ANSWER = FALLBACK_ANSWER)
   \<and> (pickExtractiveLine c q = Some l \<longrightarrow>
        orElse (pickExtractiveLine c q) FALLBACK_ANSWER = l)
   \<and> (contextLines c = [] \<longrightarrow> pickExtractiveLine c q = None)
   \<and> (tokenize q \<noteq> [] \<longrightarrow>
        (pickExtractiveLine c q = None) =
        (\<forall>line\<in>set (contextLines c).
            lineScore (tokenize q) (detectPersonalIntent q) line = 0))
   \<and> (tokenize q \<noteq> [] \<longrightarrow>
        (pickExtractiveLine c q = Some l) =
        (\<exists>pre post. contextLines c = pre @ l # post
           \<and> 0 < lineScore (tokenize q) (detectPersonalIntent q) l
           \<and> (\<forall>x\<in>set pre. lineScore (tokenize q) (detectPersonalIntent q) x
                              < lineScore (tokenize q) (detectPersonalIntent q) l)
           \<and> (\<forall>x\<in>set post. lineScore (tokenize q) (detectPersonalIntent q) x
                              \<le> lineScore (tokenize q) (detectPersonalIntent q) l)))
   \<and> (tokenize q = [] \<and> contextLines c \<noteq> [] \<longrightarrow>
        pickExtractiveLine c q =
          Some (case detectPersonalIntent q of
                  None \<Rightarrow> hd (contextLines c)
                | Some intent \<Rightarrow>
                    (case find (\<lambda>line. lineMatchesPersonalIntent line intent) (contextLines c) of
                       None \<Rightarrow> hd (contextLines c)
                     | Some intentLine \<Rightarrow> intentLine)))
   \<and> (\<forall>l. pickExtractiveLine c q = Some l \<longrightarrow> l \<in> set (contextLines c))
   \<and> lineScore queryTokens personalIntent line =
        length (filter (\<lambda>token. \<exists>lineToken\<in>set (tokenize line).
                          prefix token lineToken \<or> prefix lineToken token) queryTokens)
        + (case personalIntent of
             None \<Rightarrow> 0
           | Some intent \<Rightarrow> if lineMatchesPersonalIntent line intent then 2 else 0)"
proof -
  have 2: "trim a = [] \<or> trim a = FALLBACK_ANSWER \<or> \<not> isGroundedAnswer modeVar (trim a) c \<longrightarrow>
        enforceGrounding modeVar a c q = orElse (pickExtractiveLine c q) FALLBACK_ANSWER"
    by (auto simp: enforceGrounding_def Let_def)
  have 3: "trim a \<noteq> [] \<and> trim a \<noteq> FALLBACK_ANSWER \<and> isGroundedAnswer modeVar (trim a) c \<longrightarrow>
        enforceGrounding modeVar a c q = trim a"
    by (simp add: enforceGrounding_def Let_def)
  have 4: "pickExtractiveLine c q = None \<longrightarrow>
        orElse (pickExtractiveLine c q) FALLBACK_ANSWER = FALLBACK_ANSWER"
    by (simp add: orElse_def)
  have 5: "pickExtractiveLine c q = Some l \<longrightarrow>
        orElse (pickExtractiveLine c q) FALLBACK_ANSWER = l"
    by (simp add: orElse_def)
  have 1: "enforceGrounding modeVar a c q = a \<longrightarrow>
      a = FALLBACK_ANSWER
      \<or> (\<exists>x\<in>set (splitOn CHR 0x0A c).
             answerMatchesLine modeVar a (normalizeLine (stripIndex x)))"
    using enforceGrounding_unchanged[of modeVar a c q] by blast
  have 6: "contextLines c = [] \<longrightarrow> pickExtractiveLine c q = None"
    using pickExtractiveLine_no_lines[of c q] by blast
  have 7: "tokenize q \<noteq> [] \<longrightarrow>
        (pickExtractiveLine c q = None) =
        (\<forall>line\<in>set (contextLines c).
            lineScore (tokenize q) (detectPersonalIntent q) line = 0)"
    using pickExtractiveLine_scored[of q c] by blast
  have 8: "tokenize q \<noteq> [] \<longrightarrow>
        (pickExtractiveLine c q = Some l) =
        (\<exists>pre post. contextLines c = pre @ l # post
           \<and> 0 < lineScore (tokenize q) (detectPersonalIntent q) l
           \<and> (\<forall>x\<in>set pre. lineScore (tokenize q) (detectPersonalIntent q) x
                              < lineScore (tokenize q) (detectPersonalIntent q) l)
           \<and> (\<forall>x\<in>set post. lineScore (tokenize q) (detectPersonalIntent q) x
                              \<le> lineScore (tokenize q) (detectPersonalIntent q) l))"
    using pickExtractiveLine_first_max[of q c l] by blast
  have 9: "tokenize q = [] \<and> contextLines c \<noteq> [] \<longrightarrow>
        pickExtractiveLine c q =
          Some (case detectPersonalIntent q of
                  None \<Rightarrow> hd (contextLines c)
                | Some intent \<Rightarrow>
                    (case find (\<lambda>line. lineMatchesPersonalIntent line intent) (contextLines c) of
                       None \<Rightarrow> hd (contextLines c)
                     | Some intentLine \<Rightarrow> intentLine))"
    using pickExtractiveLine_no_tokens[of q c] by blast
  have 10: "\<forall>l. pickExtractiveLine c q = Some l \<longrightarrow> l \<in> set (contextLines c)"
    using pickExtractiveLine_member[of c q] by blast
  from 1 2 3 isGroundedAnswer_iff[of modeVar a c] 4 5 6 7 8 9 10
    lineScore_counts[of queryTokens personalIntent line]
  show ?thesis by (intro conjI)
qed

lemma tc_lines: "contextLines teaCoffee = [''User likes tea.'', ''User likes coffee.'']"
  unfolding teaCoffee_def by code_simp

lemma tc_split: "splitOn CHR 0x0A teaCoffee = [''[1] User likes tea.'', ''[2] User likes coffee.'']"
  unfolding teaCoffee_def by code_simp

lemma tc_tokens: "tokenize ''coffee'' = [''coffee'']" "tokenize ''user'' = [''user'']"
  "tokenize ''hi'' = []" "tokenize ''milk'' = [''milk'']"
  by code_simp+

lemma tc_intents: "detectPersonalIntent ''coffee'' = None" "detectPersonalIntent ''user'' = None"
  "detectPersonalIntent ''hi'' = None" "detectPersonalIntent ''milk'' = None"
  by code_simp+

lemma tc_scores:
  "lineScore [''coffee''] None ''User likes tea.'' = 0"
  "lineScore [''coffee''] None ''User likes coffee.'' = 1"
  "lineScore [''user''] None ''User likes tea.'' = 1"
  "lineScore [''user''] None ''User likes coffee.'' = 1"
  "lineScore [''milk''] None ''User likes tea.'' = 0"
  "lineScore [''milk''] None ''User likes coffee.'' = 0"
  by code_simp+

lemma tc_trim: "trim ''User likes milk.'' = ''User likes milk.''"
  "trim ''User likes coffee.'' = ''User likes coffee.''"
  by code_simp+

lemma tc_grounded: "\<not> isGroundedAnswer None ''User likes milk.'' teaCoffee"
  "isGroundedAnswer None ''User likes coffee.'' teaCoffee"
  unfolding teaCoffee_def by code_simp+

lemma tc_match:
  "answerMatchesLine None ''User likes coffee.'' (normalizeLine (stripIndex ''[2] User likes coffee.''))"
  by code_simp

theorem enforceGrounding_outcomes_witness:
  "contextLines teaCoffee = [''User likes tea.'', ''User likes coffee.'']
   \<and> enforceGrounding None ''User likes coffee.'' teaCoffee ''tea'' = ''User likes coffee.''
   \<and> answerMatchesLine None ''User likes coffee.''
        (normalizeLine (stripIndex ''[2] User likes coffee.''))
   \<and> \<not> isGroundedAnswer None (trim ''User likes milk.'') teaCoffee
   \<and> tokenize ''coffee'' \<noteq> []
   \<and> pickExtractiveLine teaCoffee ''coffee'' = Some ''User likes coffee.''
   \<and> enforceGrounding None ''User likes milk.'' teaCoffee ''coffee'' = ''User likes coffee.''
   \<and> tokenize ''user'' \<noteq> []
   \<and> pickExtractiveLine teaCoffee ''user'' = Some ''User likes tea.''
   \<and> enforceGrounding None ''User likes milk.'' teaCoffee ''user'' = ''User likes tea.''
   \<and> tokenize ''hi'' = []
   \<and> pickExtractiveLine teaCoffee ''hi'' = Some ''User likes tea.''
   \<and> enforceGrounding None ''User likes milk.'' teaCoffee ''hi'' = ''User likes tea.''
   \<and> tokenize ''milk'' \<noteq> []
   \<and> pickExtractiveLine teaCoffee ''milk'' = None
   \<and> enforceGrounding None ''User likes milk.'' teaCoffee ''milk'' = FALLBACK_ANSWER"
proof -
  note th = enforceGrounding_outcomes
  have ne: "''User likes coffee.'' \<noteq> FALLBACK_ANSWER" "''User likes milk.'' \<noteq> FALLBACK_ANSWER"
    by (simp_all add: FALLBACK_ANSWER_def)
  have g2: "\<not> isGroundedAnswer None (trim ''User likes milk.'') teaCoffee"
    by (simp add: tc_trim tc_grounded)
  have a: "enforceGrounding None ''User likes coffee.'' teaCoffee ''tea'' = ''User likes coffee.''"
    using th[where modeVar=None and a="''User likes coffee.''" and c=teaCoffee and q="''tea''"]
    by (simp add: tc_trim tc_grounded ne)
  have p1: "pickExtractiveLine teaCoffee ''coffee'' = Some ''User likes coffee.''"
  proof -
    have "\<exists>pre post. contextLines teaCoffee = pre @ ''User likes coffee.'' # post
           \<and> 0 < lineScore (tokenize ''coffee'') (detectPersonalIntent ''coffee'') ''User likes coffee.''
           \<and> (\<forall>x\<in>set pre. lineScore (tokenize ''coffee'') (detectPersonalIntent ''coffee'') x
                  < lineScore (tokenize ''coffee'') (detectPersonalIntent ''coffee'') ''User likes coffee.'')
           \<and> (\<forall>x\<in>set post. lineScore (tokenize ''coffee'') (detectPersonalIntent ''coffee'') x
                  \<le> lineScore (tokenize ''coffee'') (detectPersonalIntent ''coffee'') ''User likes coffee.'')"
      by (rule exI[of _ "[''User likes tea.'']"], rule exI[of _ "[]"])
         (simp add: tc_lines tc_tokens tc_intents tc_scores)
    with th[where c=teaCoffee and q="''coffee''" and l="''User likes coffee.''"]
    show ?thesis by (simp add: tc_tokens)
  qed
  have p2: "pickExtractiveLine teaCoffee ''user'' = Some ''User likes tea.''"
  proof -
    have "\<exists>pre post. contextLines teaCoffee = pre @ ''User likes tea.'' # post
           \<and> 0 < lineScore (tokenize ''user'') (detectPersonalIntent ''user'') ''User likes tea.''
           \<and> (\<forall>x\<in>set pre. lineScore (tokenize ''user'') (detectPersonalIntent ''user'') x
                  < lineScore (tokenize ''user'') (detectPersonalIntent ''user'') ''User likes tea.'')
           \<and> (\<forall>x\<in>set post. lineScore (tokenize ''user'') (detectPersonalIntent ''user'') x
                  \<le> lineScore (tokenize ''user'') (detectPersonalIntent ''user'') ''User likes tea.'')"
      by (rule exI[of _ "[]"], rule exI[of _ "[''User likes coffee.'']"])
         (simp add: tc_lines tc_tokens tc_intents tc_scores)
    with th[where c=teaCoffee and q="''user''" and l="''User likes tea.''"]
    show ?thesis by (simp add: tc_tokens)
  qed
  have p3: "pickExtractiveLine teaCoffee ''hi'' = Some ''User likes tea.''"
    using th[where c=teaCoffee and q="''hi''"]
    by (simp add: tc_tokens tc_intents tc_lines)
  have p4: "pickExtractiveLine teaCoffee ''milk'' = None"
    using th[where c=teaCoffee and q="''milk''"]
    by (simp add: tc_tokens tc_intents tc_lines tc_scores)
  have b: "enforceGrounding None ''User likes milk.'' teaCoffee ''coffee'' = ''User likes coffee.''"
    using th[where modeVar=None and a="''User likes milk.''" and c=teaCoffee and q="''coffee''"] g2
    by (simp add: p1 orElse_def)
  have c: "enforceGrounding None ''User likes milk.'' teaCoffee ''user'' = ''User likes tea.''"
    using th[where modeVar=None and a="''User likes milk.''" and c=teaCoffee and q="''user''"] g2
    by (simp add: p2 orElse_def)
  have d: "enforceGrounding None ''User likes milk.'' teaCoffee ''hi'' = ''User likes tea.''"
    using th[where modeVar=None and a="''User likes milk.''" and c=teaCoffee and q="''hi''"] g2
    by (simp add: p3 orElse_def)
  have e: "enforceGrounding None ''User likes milk.'' teaCoffee ''milk'' = FALLBACK_ANSWER"
    using th[where modeVar=None and a="''User likes milk.''" and c=teaCoffee and q="''milk''"] g2
    by (simp add: p4 orElse_def)
  have t: "tokenize ''coffee'' \<noteq> []" "tokenize ''user'' \<noteq> []" "tokenize ''milk'' \<noteq> []"
    by (simp_all add: tc_tokens)
  from tc_lines a tc_match g2 t(1) p1 b t(2) p2 c tc_tokens(3) p3 d t(3) p4 e
  show ?thesis by (intro conjI)
qed

section \<open>Properties of the memory repository\<close>

lemma includesStr_sublist: "includesStr s t = sublist t s"
proof (induction s)
  case Nil
  then show ?case by simp
next
  case (Cons c cs)
  then show ?case by (simp add: startsWith_prefix sublist_Cons_right)
qed

lemma countHitsLoop_eq:
  "countHitsLoop lower tokens hits =
   hits + length (filter (\<lambda>token. list_ex (\<lambda>variant. includesStr lower variant)
                                     (expandTokenVariants token)) tokens)"
  by (induction tokens arbitrary: hits) (simp_all add: Let_def)

lemma countKeywordHits_eq:
  "countKeywordHits text tokens =
   length (filter (\<lambda>token. \<exists>variant\<in>set (expandTokenVariants token).
                              sublist variant (normalizeLexicalText text)) tokens)"
  by (simp add: countKeywordHits_def countHitsLoop_eq list_ex_iff includesStr_sublist)

lemma keywordHits_of_row:
  "sr_keywordHits (toSearchResult tableName nf tokens (r, d)) =
   countKeywordHits (normalizeLexicalText (lexicalTextOf r)) tokens"
  by (simp add: toSearchResult_def Let_def)

lemma boostScore_fields:
  "sr_keywordHits (boostScore item) = sr_keywordHits item"
  "sr_phraseMatch (boostScore item) = sr_phraseMatch item"
  "sr_text (boostScore item) = sr_text item"
  by (simp_all add: boostScore_def Let_def)

lemma setAdd_set: "set (setAdd xs x) = insert x (set xs)"
  by (auto simp: setAdd_def)

lemma expandTokenVariants_members:
  "variant \<in> set (expandTokenVariants token) \<Longrightarrow>
   length variant \<ge> 2 \<and>
   variant \<in> {token, sliceEnd token 3 @ ''y'', sliceEnd token 5, sliceEnd token 4,
              sliceEnd token 2, sliceEnd token 1, sliceEnd token 3}"
  by (auto simp: expandTokenVariants_def Let_def setAdd_set split: if_splits)

lemma tokenizeQuery_members:
  "token \<in> set (tokenizeQuery query) \<Longrightarrow> length token \<ge> 2 \<and> token \<notin> set STOP_WORDS"
  by (simp add: tokenizeQuery_def)

lemma hits_offee:
  "countKeywordHits (normalizeLexicalText (lexicalTextOf (sampleFact ''coffee'')))
     (tokenizeQuery (normalizeLexicalText ''offee'')) = 1"
  unfolding sampleFact_def by code_simp

lemma spec_hits_offee: "specKeywordHits (sampleFact ''coffee'') ''offee'' = 0"
  unfolding sampleFact_def by code_simp

lemma startsWith_append: "startsWith s t \<longleftrightarrow> (\<exists>u. s = t @ u)"
  by (induction s t rule: startsWith.induct) auto

lemma endsWith_append: "endsWith w s \<longleftrightarrow> (\<exists>stem. w = stem @ s)"
proof
  assume "endsWith w s"
  then obtain u where "rev w = rev s @ u"
    by (auto simp: endsWith_def startsWith_append)
  then have "w = rev u @ s" by (simp add: rev_swap)
  then show "\<exists>stem. w = stem @ s" by blast
next
  assume "\<exists>stem. w = stem @ s"
  then show "endsWith w s" by (auto simp: endsWith_def startsWith_append)
qed

lemma sliceEnd_append: "length s = n \<Longrightarrow> sliceEnd (stem @ s) n = stem"
  by (simp add: sliceEnd_def)

lemma expandTokenVariants_set:
  "set (expandTokenVariants word) =
     {variant. length variant \<ge> 2 \<and>
        (variant = word
         \<or> (endsWith word ''ies'' \<and> length word > 4 \<and> variant = sliceEnd word 3 @ ''y'')
         \<or> (endsWith word ''ences'' \<and> length word > 7 \<and> variant = sliceEnd word 5)
         \<or> (endsWith word ''ence'' \<and> length word > 6 \<and> variant = sliceEnd word 4)
         \<or> (endsWith word ''es'' \<and> length word > 4 \<and> variant = sliceEnd word 2)
         \<or> (endsWith word ''s'' \<and> length word > 3 \<and> variant = sliceEnd word 1)
         \<or> (endsWith word ''ing'' \<and> length word > 5 \<and> variant = sliceEnd word 3)
         \<or> (endsWith word ''ed'' \<and> length word > 4 \<and> variant = sliceEnd word 2))}"
  unfolding expandTokenVariants_def Let_def
  by (simp only: set_filter setAdd_set if_distrib[of set] set_simps) (auto split: if_splits)

lemma expandTokenVariants_iff:
  "variant \<in> set (expandTokenVariants word) \<longleftrightarrow>
     length variant \<ge> 2 \<and>
        (variant = word
         \<or> (\<exists>stem. word = stem @ ''ies'' \<and> length word > 4 \<and> variant = stem @ ''y'')
         \<or> (\<exists>stem. word = stem @ ''ences'' \<and> length word > 7 \<and> variant = stem)
         \<or> (\<exists>stem. word = stem @ ''ence'' \<and> length word > 6 \<and> variant = stem)
         \<or> (\<exists>stem. word = stem @ ''es'' \<and> length word > 4 \<and> variant = stem)
         \<or> (\<exists>stem. word = stem @ ''s'' \<and> length word > 3 \<and> variant = stem)
         \<or> (\<exists>stem. word = stem @ ''ing'' \<and> length word > 5 \<and> variant = stem)
         \<or> (\<exists>stem. word = stem @ ''ed'' \<and> length word > 4 \<and> variant = stem))"
  (is "?L \<longleftrightarrow> ?R")
proof
  assume ?L
  then show ?R
    unfolding expandTokenVariants_set mem_Collect_eq endsWith_append
    by (elim conjE disjE exE; simp add: sliceEnd_append)
next
  assume r: ?R
  have e: "\<And>stem s. endsWith (stem @ s) s" by (auto simp: endsWith_append)
  from r show ?L
    unfolding expandTokenVariants_set mem_Collect_eq
    by (elim conjE disjE exE; simp add: sliceEnd_append e)
qed


text \<open>
  C8, as stated, fails. The row text is \<open>coffee\<close> and the query is \<open>offee\<close>. No token of the
  row is equal to the query token, nor is one a prefix of the other, so the count the
  specification describes is 0; \<open>countKeywordHits\<close> looks for the token anywhere in the
  row's text and counts 1.
\<close>

theorem keywordHits_counts_infix_match:
  "sr_keywordHits (toSearchResult FACTS_TABLE (normalizeLexicalText ''offee'')
                     (tokenizeQuery (normalizeLexicalText ''offee'')) (sampleFact ''coffee'', Some 1)) = 1
   \<and> specKeywordHits (sampleFact ''coffee'') ''offee'' = 0"
  by (simp add: keywordHits_of_row hits_offee spec_hits_offee)

text \<open>
  C8, amended. The keyword hits of a retrieved row are the number of query tokens, each
  occurrence counted, for which the token or one of its variants occurs as a contiguous
  part of the row's normalized text, category and source. A query token has length at least
  2 and is no stop word. The variants of a token are, of the following, those of length at
  least 2: the token itself; for a token of more than 4 characters that ends in \<open>ies\<close>, the
  token with \<open>y\<close> for \<open>ies\<close>; the token without its ending \<open>ences\<close> (if it has more than 7
  characters), \<open>ence\<close> (more than 6), \<open>es\<close> (more than 4), \<open>s\<close> (more than 3), \<open>ing\<close> (more
  than 5) or \<open>ed\<close> (more than 4). The rank boost leaves the count as it is.
\<close>

theorem keywordHits_counts_substring_tokens:
  "sr_keywordHits (toSearchResult tableName (normalizeLexicalText query)
                     (tokenizeQuery (normalizeLexicalText query)) (r, d))
     = length (filter (\<lambda>token. \<exists>variant\<in>set (expandTokenVariants token).
                                  sublist variant (normalizeLexicalText (lexicalTextOf r)))
                      (tokenizeQuery query))
   \<and> sr_keywordHits (boostScore item) = sr_keywordHits item
   \<and> (token \<in> set (tokenizeQuery query) \<longrightarrow> length token \<ge> 2 \<and> token \<notin> set STOP_WORDS)
   \<and> (variant \<in> set (expandTokenVariants word) \<longleftrightarrow>
        length variant \<ge> 2 \<and>
        (variant = word
         \<or> (\<exists>stem. word = stem @ ''ies'' \<and> length word > 4 \<and> variant = stem @ ''y'')
         \<or> (\<exists>stem. word = stem @ ''ences'' \<and> length word > 7 \<and> variant = stem)
         \<or> (\<exists>stem. word = stem @ ''ence'' \<and> length word > 6 \<and> variant = stem)
         \<or> (\<exists>stem. word = stem @ ''es'' \<and> length word > 4 \<and> variant = stem)
         \<or> (\<exists>stem. word = stem @ ''s'' \<and> length word > 3 \<and> variant = stem)
         \<or> (\<exists>stem. word = stem @ ''ing'' \<and> length word > 5 \<and> variant = stem)
         \<or> (\<exists>stem. word = stem @ ''ed'' \<and> length word > 4 \<and> variant = stem)))"
proof -
  have a: "sr_keywordHits (toSearchResult tableName (normalizeLexicalText query)
                     (tokenizeQuery (normalizeLexicalText query)) (r, d))
     = length (filter (\<lambda>token. \<exists>variant\<in>set (expandTokenVariants token).
                                  sublist variant (normalizeLexicalText (lexicalTextOf r)))
                      (tokenizeQuery query))"
    by (simp add: keywordHits_of_row countKeywordHits_eq normalizeLexicalText_idem
          tokenizeQuery_normalized)
  have b: "sr_keywordHits (boostScore item) = sr_keywordHits item"
    by (simp add: boostScore_fields)
  have c: "token \<in> set (tokenizeQuery query) \<longrightarrow> length token \<ge> 2 \<and> token \<notin> set STOP_WORDS"
    using tokenizeQuery_members[of token query] by blast
  from a b c expandTokenVariants_iff[of variant word] show ?thesis by (intro conjI)
qed

lemma tokens_coffee3: "tokenizeQuery ''coffee coffee offee'' = [''coffee'', ''coffee'', ''offee'']"
  by code_simp

lemma hits_coffee3:
  "countKeywordHits (normalizeLexicalText (lexicalTextOf (sampleFact ''coffee'')))
     (tokenizeQuery (normalizeLexicalText ''coffee coffee offee'')) = 3"
  unfolding sampleFact_def by code_simp

lemma variants_studies: "expandTokenVariants ''studies'' = [''studies'', ''study'', ''studi'', ''studie'']"
  by code_simp

lemma variants_bus: "expandTokenVariants ''bus'' = [''bus'']"
  by code_simp

theorem keywordHits_counts_substring_tokens_witness:
  "''offee'' \<in> set (tokenizeQuery ''coffee coffee offee'')
   \<and> length ''offee'' \<ge> 2
   \<and> length (filter (\<lambda>token. \<exists>variant\<in>set (expandTokenVariants token).
                                  sublist variant (normalizeLexicalText (lexicalTextOf (sampleFact ''coffee''))))
                      (tokenizeQuery ''coffee coffee offee'')) = 3
   \<and> ''study'' \<in> set (expandTokenVariants ''studies'')
   \<and> ''differ'' \<in> set (expandTokenVariants ''differences'')
   \<and> ''differ'' \<in> set (expandTokenVariants ''difference'')
   \<and> ''box'' \<in> set (expandTokenVariants ''boxes'')
   \<and> ''cat'' \<in> set (expandTokenVariants ''cats'')
   \<and> ''walk'' \<in> set (expandTokenVariants ''walking'')
   \<and> ''walk'' \<in> set (expandTokenVariants ''walked'')
   \<and> ''walked'' \<in> set (expandTokenVariants ''walked'')
   \<and> ''wal'' \<notin> set (expandTokenVariants ''walked'')
   \<and> expandTokenVariants ''bus'' = [''bus'']"
proof -
  let ?item = "toSearchResult FACTS_TABLE [] [] (sampleFact ''coffee'', Some 1)"
  note th = keywordHits_counts_substring_tokens[of FACTS_TABLE "''coffee coffee offee''"
         "sampleFact ''coffee''" "Some 1" ?item "''offee''"]
  note v = th[THEN conjunct2, THEN conjunct2, THEN conjunct2]
  have a: "''offee'' \<in> set (tokenizeQuery ''coffee coffee offee'')"
    by (simp add: tokens_coffee3)
  have l: "length ''offee'' \<ge> 2" using th a by blast
  have main: "length (filter (\<lambda>token. \<exists>variant\<in>set (expandTokenVariants token).
                                  sublist variant (normalizeLexicalText (lexicalTextOf (sampleFact ''coffee''))))
                      (tokenizeQuery ''coffee coffee offee'')) = 3"
    using th[THEN conjunct1] by (simp only: keywordHits_of_row hits_coffee3)
  have v1: "''study'' \<in> set (expandTokenVariants ''studies'')"
    unfolding v[of "''study''" "''studies''"] by simp
  have v2: "''differ'' \<in> set (expandTokenVariants ''differences'')"
    unfolding v[of "''differ''" "''differences''"] by simp
  have v3: "''differ'' \<in> set (expandTokenVariants ''difference'')"
    unfolding v[of "''differ''" "''difference''"] by simp
  have v4: "''box'' \<in> set (expandTokenVariants ''boxes'')"
    unfolding v[of "''box''" "''boxes''"] by simp
  have v5: "''cat'' \<in> set (expandTokenVariants ''cats'')"
    unfolding v[of "''cat''" "''cats''"] by simp
  have v6: "''walk'' \<in> set (expandTokenVariants ''walking'')"
    unfolding v[of "''walk''" "''walking''"] by simp
  have v7: "''walk'' \<in> set (expandTokenVariants ''walked'')"
    unfolding v[of "''walk''" "''walked''"] by simp
  have v8: "''walked'' \<in> set (expandTokenVariants ''walked'')"
    unfolding v[of "''walked''" "''walked''"] by simp
  have v9: "''wal'' \<notin> set (expandTokenVariants ''walked'')"
    unfolding v[of "''wal''" "''walked''"] by (auto simp: append_eq_Cons_conv)
  from a l main v1 v2 v3 v4 v5 v6 v7 v8 v9 variants_bus show ?thesis by (intro conjI)
qed


subsection \<open>The lexical guardrail of the search\<close>

lemma lexicalGuard_cases:
  assumes "tokenizeQuery query \<noteq> []"
  shows "lexicalGuard strict query all =
     (if list_ex lexicalOverlap all then filter lexicalOverlap all
      else if list_ex (intentShape query) all then filter (intentShape query) all
      else if strict then [] else all)"
proof -
  have f: "(\<lambda>item. sr_phraseMatch item \<or> sr_keywordHits item > 0) = lexicalOverlap"
    by (simp add: lexicalOverlap_def fun_eq_iff)
  show ?thesis
  proof (cases "detectPersonalIntent query")
    case None
    then show ?thesis
      using assms
      by (auto simp: lexicalGuard_def Let_def f list_ex_iff filter_empty_conv intentShape_def)
  next
    case (Some personalIntent)
    then have g: "(\<lambda>item. matchesPersonalIntent (sr_text item) personalIntent) = intentShape query"
      by (simp add: intentShape_def fun_eq_iff)
    show ?thesis
      using assms Some
      by (auto simp: lexicalGuard_def Let_def f g list_ex_iff filter_empty_conv)
  qed
qed

lemma takeUnique_subset:
  "set (takeUnique limit items topK) \<subseteq> set topK \<union> sr_text ` set items"
proof (induction items arbitrary: topK)
  case Nil
  then show ?case by simp
next
  case (Cons item items)
  show ?case
    using Cons[of topK] Cons[of "topK @ [sr_text item]"]
    by (auto simp: Let_def)
qed

lemma searchMemory_found:
  assumes "generateEmbedding (repo_embedding env) cache query = (Inr vector, cache')"
    and "vector \<noteq> []"
    and "searchAllTables env tables vector limit query = Inr rows"
  shows "searchMemory env (cache, tables) query limit =
     (Inr (takeUnique limit
            (sort_key sr_score (lexicalGuard (isStrictQueryMatchEnabled (repo_strictMatch env)) query rows))
            []), cache')"
  using assms by (simp add: searchMemory_def Let_def)

lemma tokenizeQuery_filter_nonempty:
  assumes "tokenizeQuery query \<noteq> []"
  shows "normalizeLexicalText query \<noteq> []"
proof
  assume "normalizeLexicalText query = []"
  then have "tokenizeQuery query = []"
    by (simp add: tokenizeQuery_def) code_simp
  with assms show False by simp
qed

lemma searchTable_rows:
  assumes "searchTable env tables tableName vector limit (Some query) = Inr rows"
    and "item \<in> set rows"
    and "tokenizeQuery query \<noteq> []"
  shows "\<exists>stored results r d.
           tables tableName = Some stored
         \<and> repo_vectorSearch env tableName stored vector limit = Inr results
         \<and> (r, d) \<in> set results
         \<and> sr_text item = rec_text r
         \<and> sr_phraseMatch item
             = includesStr (normalizeLexicalText (lexicalTextOf r)) (normalizeLexicalText query)
         \<and> sr_keywordHits item
             = countKeywordHits (normalizeLexicalText (lexicalTextOf r)) (tokenizeQuery query)"
proof -
  have ne: "normalizeLexicalText query \<noteq> []"
    using assms(3) by (rule tokenizeQuery_filter_nonempty)
  from assms(1,2) obtain stored results where
      st: "tables tableName = Some stored"
      and vs: "repo_vectorSearch env tableName stored vector limit = Inr results"
      and rows: "rows = map boostScore
                   (map (toSearchResult tableName (normalizeLexicalText query)
                          (tokenizeQuery (normalizeLexicalText query))) results)"
    using ne
    by (auto simp: searchTable_def Let_def split: option.splits sum.splits)
  from rows assms(2) obtain row where row: "row \<in> set results"
      and item: "item = boostScore (toSearchResult tableName (normalizeLexicalText query)
                          (tokenizeQuery query) row)"
    by (auto simp: tokenizeQuery_normalized)
  obtain r d where rd: "row = (r, d)" by (cases row)
  have "sr_text item = rec_text r"
    "sr_phraseMatch item
       = includesStr (normalizeLexicalText (lexicalTextOf r)) (normalizeLexicalText query)"
    "sr_keywordHits item
       = countKeywordHits (normalizeLexicalText (lexicalTextOf r)) (tokenizeQuery query)"
    using ne by (simp_all add: item rd boostScore_fields toSearchResult_def Let_def)
  with st vs row rd show ?thesis by blast
qed

lemma searchAllTables_rows:
  assumes "searchAllTables env tables vector limit query = Inr rows"
    and "item \<in> set rows"
  shows "(\<exists>rs. searchTable env tables DOCUMENTS_TABLE vector limit (Some query) = Inr rs
              \<and> item \<in> set rs)
       \<or> (\<exists>rs. searchTable env tables FACTS_TABLE vector limit (Some query) = Inr rs
              \<and> item \<in> set rs)"
  using assms
  by (auto simp: searchAllTables_def Let_def split: if_splits sum.splits)

lemma retrieved_rows:
  assumes "searchAllTables env tables vector limit query = Inr rows"
    and "item \<in> set rows"
    and "tokenizeQuery query \<noteq> []"
  shows "\<exists>tableName stored results r d.
           tables tableName = Some stored
         \<and> repo_vectorSearch env tableName stored vector limit = Inr results
         \<and> (r, d) \<in> set results
         \<and> sr_text item = rec_text r
         \<and> sr_phraseMatch item
             = includesStr (normalizeLexicalText (lexicalTextOf r)) (normalizeLexicalText query)
         \<and> sr_keywordHits item
             = countKeywordHits (normalizeLexicalText (lexicalTextOf r)) (tokenizeQuery query)"
proof -
  from searchAllTables_rows[OF assms(1,2)] obtain tableName rs where
      "searchTable env tables tableName vector limit (Some query) = Inr rs" "item \<in> set rs"
    by blast
  from searchTable_rows[OF this assms(3)] show ?thesis by blast
qed

lemma guarded_texts:
  assumes "tokenizeQuery query \<noteq> []"
    and "t \<in> set (takeUnique limit (sort_key sr_score (lexicalGuard strict query rows)) [])"
  shows "\<exists>item\<in>set rows. sr_text item = t
           \<and> (lexicalOverlap item
              \<or> (\<not> list_ex lexicalOverlap rows \<and> intentShape query item)
              \<or> (\<not> strict \<and> \<not> list_ex lexicalOverlap rows \<and> \<not> list_ex (intentShape query) rows))"
proof -
  from assms(2) obtain item where
      item: "item \<in> set (lexicalGuard strict query rows)" and t: "sr_text item = t"
    using takeUnique_subset[of limit "sort_key sr_score (lexicalGuard strict query rows)" "[]"]
    by auto
  from item have "item \<in> set rows
           \<and> (lexicalOverlap item
              \<or> (\<not> list_ex lexicalOverlap rows \<and> intentShape query item)
              \<or> (\<not> strict \<and> \<not> list_ex lexicalOverlap rows \<and> \<not> list_ex (intentShape query) rows))"
    unfolding lexicalGuard_cases[OF assms(1)]
    by (auto split: if_splits)
  with t show ?thesis by blast
qed

lemma norm_coffee: "collapseSpaces (trim ''coffee'') = ''coffee''"
  by code_simp

lemma norm_name: "collapseSpaces (trim ''my name'') = ''my name''"
  by code_simp

lemma filter_coffee: "normalizeLexicalText ''coffee'' = ''coffee''"
  by code_simp

lemma tokens_coffee: "tokenizeQuery ''coffee'' = [''coffee'']"
  by code_simp

lemma filter_name: "normalizeLexicalText ''my name'' = ''my name''"
  by code_simp

lemma tokens_name: "tokenizeQuery ''my name'' = [''name'']"
  by code_simp

lemma intent_coffee: "detectPersonalIntent ''coffee'' = None"
  by code_simp

lemma intent_name: "detectPersonalIntent ''my name'' = Some name_intent"
  by code_simp

lemma strict_zero: "\<not> isStrictQueryMatchEnabled (Some ''0'')"
  by code_simp

lemma text_tea: "normalizeLexicalText (lexicalTextOf (sampleFact ''tea'')) = ''tea general user fact''"
  by code_simp

lemma text_john: "normalizeLexicalText (lexicalTextOf (sampleFact ''John Doe'')) = ''john doe general user fact''"
  by code_simp

lemma hits_tea_coffee: "countKeywordHits ''tea general user fact'' [''coffee''] = 0"
  by code_simp

lemma phrase_tea_coffee: "\<not> includesStr ''tea general user fact'' ''coffee''"
  by code_simp

lemma hits_john_name: "countKeywordHits ''john doe general user fact'' [''name''] = 0"
  by code_simp

lemma phrase_john_name: "\<not> includesStr ''john doe general user fact'' ''my name''"
  by code_simp

lemma shape_john: "matchesPersonalIntent ''John Doe'' name_intent"
  by code_simp

lemma shape_tea: "\<not> matchesPersonalIntent ''tea'' name_intent"
  by code_simp

lemma sample_embedding:
  assumes "collapseSpaces (trim t) \<noteq> []"
  shows "\<exists>v c. generateEmbedding sampleEmbeddingEnv Map.empty t = (Inr v, c) \<and> v \<noteq> []"
proof -
  have "emb_provider sampleEmbeddingEnv = local_provider"
    by (simp add: sampleEmbeddingEnv_def)
  from generateEmbedding_local_fresh[OF assms _ this, of Map.empty]
  obtain v where v: "fst (generateEmbedding sampleEmbeddingEnv Map.empty t) = Inr v"
    and lv: "length v = 768"
    by (auto simp: sample_dimension)
  obtain c where "generateEmbedding sampleEmbeddingEnv Map.empty t = (Inr v, c)"
    using v by (cases "generateEmbedding sampleEmbeddingEnv Map.empty t") auto
  with lv show ?thesis by auto
qed

lemma sample_rows:
  assumes "repo_dbError env = None"
    and "repo_queryScope env = None"
    and "repo_vectorSearch env = repo_vectorSearch sampleRepoEnv"
    and "normalizeLexicalText q \<noteq> []"
  shows "searchAllTables env [FACTS_TABLE \<mapsto> [sampleFact s]] v 3 q
     = Inr [boostScore (toSearchResult FACTS_TABLE (normalizeLexicalText q) (tokenizeQuery q)
                          (sampleFact s, Some 1))]"
  using assms
  by (simp add: searchAllTables_def searchTable_def sampleRepoEnv_def scope_default table_names
        Let_def tokenizeQuery_normalized)

lemma sample_row_fields:
  "sr_text (boostScore (toSearchResult tableName nf tokens (sampleFact s, d))) = s"
  "sr_phraseMatch (boostScore (toSearchResult tableName nf tokens (sampleFact s, d)))
     = (nf \<noteq> [] \<and> includesStr (normalizeLexicalText (lexicalTextOf (sampleFact s))) nf)"
  "sr_keywordHits (boostScore (toSearchResult tableName nf tokens (sampleFact s, d)))
     = countKeywordHits (normalizeLexicalText (lexicalTextOf (sampleFact s))) tokens"
  by (simp_all add: boostScore_fields toSearchResult_def Let_def sampleFact_def)

lemma sample_env_fields:
  "repo_embedding (sampleRepoEnv\<lparr>repo_strictMatch := m\<rparr>) = sampleEmbeddingEnv"
  "repo_dbError (sampleRepoEnv\<lparr>repo_strictMatch := m\<rparr>) = None"
  "repo_queryScope (sampleRepoEnv\<lparr>repo_strictMatch := m\<rparr>) = None"
  "repo_vectorSearch (sampleRepoEnv\<lparr>repo_strictMatch := m\<rparr>) = repo_vectorSearch sampleRepoEnv"
  "repo_strictMatch (sampleRepoEnv\<lparr>repo_strictMatch := m\<rparr>) = m"
  "repo_embedding sampleRepoEnv = sampleEmbeddingEnv"
  "repo_dbError sampleRepoEnv = None"
  "repo_queryScope sampleRepoEnv = None"
  "repo_strictMatch sampleRepoEnv = None"
  by (simp_all add: sampleRepoEnv_def)

text \<open>
  C2, as stated, fails. With \<open>MEMORY_STRICT_QUERY_MATCH\<close> set to \<open>0\<close>, the one stored fact
  \<open>tea\<close> and the query \<open>coffee\<close>: the query has the token \<open>coffee\<close> and expresses no personal
  intent, the retrieved row has neither a phrase match nor a keyword hit, and \<open>searchMemory\<close>
  returns its text all the same, since outside the strict mode the retrieved rows stay as
  they are when neither filter selects one.
\<close>

theorem searchMemory_unfiltered_when_not_strict:
  "tokenizeQuery ''coffee'' = [''coffee'']
   \<and> detectPersonalIntent ''coffee'' = None
   \<and> fst (searchMemory (sampleRepoEnv\<lparr>repo_strictMatch := Some ''0''\<rparr>)
            (Map.empty, [FACTS_TABLE \<mapsto> [sampleFact ''tea'']]) ''coffee'' 3) = Inr [''tea'']
   \<and> (\<exists>vector cache'.
         generateEmbedding (repo_embedding (sampleRepoEnv\<lparr>repo_strictMatch := Some ''0''\<rparr>))
           Map.empty ''coffee'' = (Inr vector, cache')
       \<and> searchAllTables (sampleRepoEnv\<lparr>repo_strictMatch := Some ''0''\<rparr>)
           [FACTS_TABLE \<mapsto> [sampleFact ''tea'']] vector 3 ''coffee''
         = Inr [boostScore (toSearchResult FACTS_TABLE ''coffee'' [''coffee'']
                              (sampleFact ''tea'', Some 1))])
   \<and> \<not> sr_phraseMatch (boostScore (toSearchResult FACTS_TABLE ''coffee'' [''coffee'']
                                      (sampleFact ''tea'', Some 1)))
   \<and> sr_keywordHits (boostScore (toSearchResult FACTS_TABLE ''coffee'' [''coffee'']
                                    (sampleFact ''tea'', Some 1))) = 0"
proof -
  let ?env = "sampleRepoEnv\<lparr>repo_strictMatch := Some ''0''\<rparr>"
  let ?row = "boostScore (toSearchResult FACTS_TABLE ''coffee'' [''coffee'']
                            (sampleFact ''tea'', Some 1))"
  obtain v c where g: "generateEmbedding sampleEmbeddingEnv Map.empty ''coffee'' = (Inr v, c)"
    and v: "v \<noteq> []"
    using sample_embedding[of "''coffee''"] by (auto simp: norm_coffee)
  have rows: "searchAllTables ?env [FACTS_TABLE \<mapsto> [sampleFact ''tea'']] v 3 ''coffee'' = Inr [?row]"
    using sample_rows[of ?env "''coffee''" "''tea''" v]
    by (simp add: sample_env_fields filter_coffee tokens_coffee)
  have p: "\<not> sr_phraseMatch ?row"
    by (simp add: sample_row_fields text_tea phrase_tea_coffee)
  have k: "sr_keywordHits ?row = 0"
    by (simp add: sample_row_fields text_tea hits_tea_coffee)
  have t: "sr_text ?row = ''tea''"
    by (simp add: sample_row_fields)
  have guard: "lexicalGuard False ''coffee'' [?row] = [?row]"
    by (simp add: lexicalGuard_def tokens_coffee p k intent_coffee Let_def)
  have "searchMemory ?env (Map.empty, [FACTS_TABLE \<mapsto> [sampleFact ''tea'']]) ''coffee'' 3
          = (Inr [''tea''], c)"
    using searchMemory_found[of ?env Map.empty "''coffee''" v c
            "[FACTS_TABLE \<mapsto> [sampleFact ''tea'']]" 3 "[?row]"] g v rows
    by (simp add: sample_env_fields strict_zero guard t)
  then have m: "fst (searchMemory ?env (Map.empty, [FACTS_TABLE \<mapsto> [sampleFact ''tea'']]) ''coffee'' 3)
          = Inr [''tea'']"
    by simp
  have e: "\<exists>vector cache'.
         generateEmbedding (repo_embedding ?env) Map.empty ''coffee'' = (Inr vector, cache')
       \<and> searchAllTables ?env [FACTS_TABLE \<mapsto> [sampleFact ''tea'']] vector 3 ''coffee''
         = Inr [?row]"
    using g rows by (auto simp: sample_env_fields)
  from tokens_coffee intent_coffee m e p k show ?thesis by (intro conjI)
qed

text \<open>
  C2, amended. For a query with at least one token, after an embedding that is not empty and
  searches that succeed, every text that \<open>searchMemory\<close> returns is the text of a retrieved
  row that has a phrase match or a keyword hit, or, when no retrieved row has one, has the
  shape of the personal intent the query expresses, or, when neither filter selects a row
  and the strict mode is disabled, is any retrieved row. When neither filter selects a row
  and the strict mode is enabled (the default), the list returned is empty. The phrase match
  and the keyword hits of a retrieved row are those of the record found by the vector search
  of its table, against the normalized query and the tokens of the query.
\<close>

theorem searchMemory_lexical_guardrail:
  assumes "generateEmbedding (repo_embedding env) cache query = (Inr vector, cache')"
    and "vector \<noteq> []"
    and "searchAllTables env tables vector limit query = Inr rows"
    and "tokenizeQuery query \<noteq> []"
  shows "\<exists>texts. searchMemory env (cache, tables) query limit = (Inr texts, cache')
     \<and> (\<forall>t\<in>set texts. \<exists>item\<in>set rows. sr_text item = t
           \<and> (lexicalOverlap item
              \<or> (\<not> list_ex lexicalOverlap rows \<and> intentShape query item)
              \<or> (\<not> isStrictQueryMatchEnabled (repo_strictMatch env)
                 \<and> \<not> list_ex lexicalOverlap rows \<and> \<not> list_ex (intentShape query) rows)))
     \<and> (isStrictQueryMatchEnabled (repo_strictMatch env)
          \<and> \<not> list_ex lexicalOverlap rows \<and> \<not> list_ex (intentShape query) rows
          \<longrightarrow> texts = [])
     \<and> (\<forall>item\<in>set rows. \<exists>tableName stored results r d.
           tables tableName = Some stored
         \<and> repo_vectorSearch env tableName stored vector limit = Inr results
         \<and> (r, d) \<in> set results
         \<and> sr_text item = rec_text r
         \<and> sr_phraseMatch item
             = includesStr (normalizeLexicalText (lexicalTextOf r)) (normalizeLexicalText query)
         \<and> sr_keywordHits item
             = countKeywordHits (normalizeLexicalText (lexicalTextOf r)) (tokenizeQuery query))"
proof -
  let ?strict = "isStrictQueryMatchEnabled (repo_strictMatch env)"
  let ?texts = "takeUnique limit (sort_key sr_score (lexicalGuard ?strict query rows)) []"
  have a: "searchMemory env (cache, tables) query limit = (Inr ?texts, cache')"
    using assms(1,2,3) by (rule searchMemory_found)
  have b: "\<forall>t\<in>set ?texts. \<exists>item\<in>set rows. sr_text item = t
           \<and> (lexicalOverlap item
              \<or> (\<not> list_ex lexicalOverlap rows \<and> intentShape query item)
              \<or> (\<not> ?strict \<and> \<not> list_ex lexicalOverlap rows \<and> \<not> list_ex (intentShape query) rows))"
    using guarded_texts[OF assms(4)] by blast
  have c: "?strict \<and> \<not> list_ex lexicalOverlap rows \<and> \<not> list_ex (intentShape query) rows
          \<longrightarrow> ?texts = []"
    by (simp add: lexicalGuard_cases[OF assms(4)])
  have d: "\<forall>item\<in>set rows. \<exists>tableName stored results r d.
           tables tableName = Some stored
         \<and> repo_vectorSearch env tableName stored vector limit = Inr results
         \<and> (r, d) \<in> set results
         \<and> sr_text item = rec_text r
         \<and> sr_phraseMatch item
             = includesStr (normalizeLexicalText (lexicalTextOf r)) (normalizeLexicalText query)
         \<and> sr_keywordHits item
             = countKeywordHits (normalizeLexicalText (lexicalTextOf r)) (tokenizeQuery query)"
    using retrieved_rows[OF assms(3) _ assms(4)] by blast
  from a b c d show ?thesis by blast
qed

theorem searchMemory_lexical_guardrail_witness:
  "tokenizeQuery ''coffee'' \<noteq> []
   \<and> isStrictQueryMatchEnabled (repo_strictMatch sampleRepoEnv)
   \<and> fst (searchMemory sampleRepoEnv
            (Map.empty, [FACTS_TABLE \<mapsto> [sampleFact ''tea'']]) ''coffee'' 3) = Inr []
   \<and> fst (searchMemory sampleRepoEnv
            (Map.empty, [FACTS_TABLE \<mapsto> [sampleFact ''John Doe'']]) ''my name'' 3)
       = Inr [''John Doe'']"
proof -
  let ?row = "boostScore (toSearchResult FACTS_TABLE ''coffee'' [''coffee'']
                            (sampleFact ''tea'', Some 1))"
  let ?john = "boostScore (toSearchResult FACTS_TABLE ''my name'' [''name'']
                            (sampleFact ''John Doe'', Some 1))"
  obtain v c where g: "generateEmbedding sampleEmbeddingEnv Map.empty ''coffee'' = (Inr v, c)"
    and v: "v \<noteq> []"
    using sample_embedding[of "''coffee''"] by (auto simp: norm_coffee)
  have rows: "searchAllTables sampleRepoEnv [FACTS_TABLE \<mapsto> [sampleFact ''tea'']] v 3 ''coffee''
                = Inr [?row]"
    using sample_rows[of sampleRepoEnv "''coffee''" "''tea''" v]
    by (simp add: sample_env_fields filter_coffee tokens_coffee)
  have tk: "tokenizeQuery ''coffee'' \<noteq> []"
    by (simp add: tokens_coffee)
  have st: "isStrictQueryMatchEnabled (repo_strictMatch sampleRepoEnv)"
    by (simp add: sample_env_fields strict_default)
  have lo: "\<not> list_ex lexicalOverlap [?row]"
    by (simp add: lexicalOverlap_def sample_row_fields text_tea phrase_tea_coffee hits_tea_coffee)
  have sh: "\<not> list_ex (intentShape ''coffee'') [?row]"
    by (simp add: intentShape_def intent_coffee)
  have g': "generateEmbedding (repo_embedding sampleRepoEnv) Map.empty ''coffee'' = (Inr v, c)"
    using g by (simp add: sample_env_fields)
  from searchMemory_lexical_guardrail[OF g' v rows tk] st lo sh
  have a: "fst (searchMemory sampleRepoEnv
            (Map.empty, [FACTS_TABLE \<mapsto> [sampleFact ''tea'']]) ''coffee'' 3) = Inr []"
    by auto
  obtain w d where h: "generateEmbedding sampleEmbeddingEnv Map.empty ''my name'' = (Inr w, d)"
    and w: "w \<noteq> []"
    using sample_embedding[of "''my name''"] by (auto simp: norm_name)
  have rows': "searchAllTables sampleRepoEnv [FACTS_TABLE \<mapsto> [sampleFact ''John Doe'']] w 3 ''my name''
                = Inr [?john]"
    using sample_rows[of sampleRepoEnv "''my name''" "''John Doe''" w]
    by (simp add: sample_env_fields filter_name tokens_name)
  have guard: "lexicalGuard True ''my name'' [?john] = [?john]"
    by (simp add: lexicalGuard_def tokens_name intent_name Let_def sample_row_fields
          text_john phrase_john_name hits_john_name shape_john)
  have "searchMemory sampleRepoEnv (Map.empty, [FACTS_TABLE \<mapsto> [sampleFact ''John Doe'']]) ''my name'' 3
          = (Inr [''John Doe''], d)"
    using searchMemory_found[of sampleRepoEnv Map.empty "''my name''" w d
            "[FACTS_TABLE \<mapsto> [sampleFact ''John Doe'']]" 3 "[?john]"] h w rows'
    by (simp add: sample_env_fields strict_default guard sample_row_fields)
  then have b: "fst (searchMemory sampleRepoEnv
            (Map.empty, [FACTS_TABLE \<mapsto> [sampleFact ''John Doe'']]) ''my name'' 3)
       = Inr [''John Doe'']"
    by simp
  from tk st a b show ?thesis by (intro conjI)
qed

end
